theory Spec2Isabelle
  imports Complex_Main "HOL-Library.Word"
begin

section \<open>The non-transitive dice game (DiceGame.js)\<close>

text \<open>
  A shallow embedding of \<^verbatim>\<open>src/DiceGame.js\<close>. Everything the program takes from
  outside is a parameter of the model: the 32-bit value read from
  \<^verbatim>\<open>crypto.randomBytes(4)\<close>, the hexadecimal keys, the keyed hash of the crypto
  library, and the lines the human types.
\<close>

subsection \<open>Thrown errors\<close>

text \<open>Every \<^verbatim>\<open>throw new Error(...)\<close> of the source is a value.\<close>

datatype error =
    RangeNotPositive      \<comment> \<open>'Range must be a positive integer.'\<close>
  | DiceNotSixIntegers    \<comment> \<open>'Each dice must have exactly six integer values.'\<close>
  | DiceNegativeValue     \<comment> \<open>'Dice values must be non-negative integers.'\<close>
  | RollIndexOutOfRange   \<comment> \<open>'Roll index must be between 0 and 5.'\<close>
  | TypeError             \<comment> \<open>a property read on \<^verbatim>\<open>undefined\<close> or \<^verbatim>\<open>null\<close>\<close>

subsection \<open>JavaScript values and operators\<close>

text \<open>
  The values the program compares with each other: numbers, strings and \<^verbatim>\<open>undefined\<close>.
  Numbers are exact rationals: the program compares integers, and decimal strings of four
  places with the integer -1.
\<close>

datatype jsval = Undefined | Num rat | Str string

text \<open>
  The remainder operator \<^verbatim>\<open>%\<close> on integers: the result takes the sign of the dividend.
  The program never divides by 0 (\<^verbatim>\<open>generateRandomInteger\<close> throws first, and the other
  divisor is 6).
\<close>

definition js_rem :: "int \<Rightarrow> int \<Rightarrow> int" where
  "js_rem a b = sgn a * (\<bar>a\<bar> mod \<bar>b\<bar>)"

text \<open>Truthiness, as \<^verbatim>\<open>||\<close> and \<^verbatim>\<open>!\<close> test it.\<close>

fun truthy :: "jsval \<Rightarrow> bool" where
  "truthy Undefined = False"
| "truthy (Num x) = (x \<noteq> 0)"
| "truthy (Str s) = (s \<noteq> [])"

definition js_or :: "jsval \<Rightarrow> jsval \<Rightarrow> jsval" where
  "js_or a b = (if truthy a then a else b)"

text \<open>Strict equality \<^verbatim>\<open>===\<close>: values of different types are never equal.\<close>

fun strict_equals :: "jsval \<Rightarrow> jsval \<Rightarrow> bool" where
  "strict_equals Undefined Undefined = True"
| "strict_equals (Num x) (Num y) = (x = y)"
| "strict_equals (Str s) (Str t) = (s = t)"
| "strict_equals _ _ = False"

text \<open>Strings compare by code units, the shorter of two strings with a common prefix first.\<close>

fun str_less :: "string \<Rightarrow> string \<Rightarrow> bool" where
  "str_less [] [] = False"
| "str_less [] (y # ys) = True"
| "str_less (x # xs) [] = False"
| "str_less (x # xs) (y # ys) =
     (if x = y then str_less xs ys else (of_char x :: nat) < of_char y)"

text \<open>Decimal digits.\<close>

definition digit_char :: "nat \<Rightarrow> char" where
  "digit_char d = ''0123456789'' ! d"

definition is_digit :: "char \<Rightarrow> bool" where
  "is_digit c = (c \<in> set ''0123456789'')"

definition digit_value :: "char \<Rightarrow> nat" where
  "digit_value c = (of_char c :: nat) - 48"

fun decimal :: "nat \<Rightarrow> string" where
  "decimal n = (if n < 10 then [digit_char n] else decimal (n div 10) @ [digit_char (n mod 10)])"

declare decimal.simps [simp del]

text \<open>The number a string of digits denotes; applied to strings the program has validated.\<close>

definition parse_decimal :: "string \<Rightarrow> nat" where
  "parse_decimal s = foldl (\<lambda>acc c. 10 * acc + digit_value c) 0 s"

text \<open>
  The conversion of a string in a comparison with a number; \<open>None\<close> is \<^verbatim>\<open>NaN\<close>. Only
  unsigned decimal literals are converted, digits with an optional fraction, which are the
  strings the program compares (the results of \<^verbatim>\<open>toFixed\<close>). Signs, exponents, blanks
  and the empty string are left out: such a string is taken for \<^verbatim>\<open>NaN\<close> here.
\<close>

definition string_to_number :: "string \<Rightarrow> rat option" where
  "string_to_number s =
     (let ip = takeWhile is_digit s; r = dropWhile is_digit s in
      if ip = [] then None
      else if r = [] then Some (of_nat (parse_decimal ip))
      else if hd r = CHR ''.'' \<and> tl r \<noteq> [] \<and> list_all is_digit (tl r)
        then Some (of_nat (parse_decimal ip) + of_nat (parse_decimal (tl r)) / 10 ^ length (tl r))
      else None)"

fun to_number :: "jsval \<Rightarrow> rat option" where
  "to_number Undefined = None"
| "to_number (Num x) = Some x"
| "to_number (Str s) = string_to_number s"

text \<open>
  The relational operator \<^verbatim>\<open>a > b\<close>: two strings compare as strings, anything else
  as numbers, and a comparison with \<^verbatim>\<open>NaN\<close> is false.
\<close>

fun js_greater :: "jsval \<Rightarrow> jsval \<Rightarrow> bool" where
  "js_greater (Str s) (Str t) = str_less t s"
| "js_greater a b =
     (case (to_number a, to_number b) of (Some x, Some y) \<Rightarrow> x > y | _ \<Rightarrow> False)"

text \<open>\<^verbatim>\<open>n.toString()\<close> of an integer.\<close>

definition number_toString :: "int \<Rightarrow> string" where
  "number_toString i = (if i < 0 then ''-'' @ decimal (nat (- i)) else decimal (nat i))"

text \<open>
  \<^verbatim>\<open>x.toFixed(f)\<close>: \<open>n\<close> is the integer for which \<open>n / 10 ^ f\<close> is nearest to \<open>x\<close>,
  the larger one of two; its digits are padded with zeros to \<open>f + 1\<close> places and the
  point is set before the last \<open>f\<close>.
\<close>

definition toFixed :: "rat \<Rightarrow> nat \<Rightarrow> string" where
  "toFixed x f =
     (let n = nat \<lfloor>\<bar>x\<bar> * 10 ^ f + 1 / 2\<rfloor>;
          m = decimal n;
          m' = (if length m \<le> f then replicate (f + 1 - length m) CHR ''0'' @ m else m);
          body = (if f \<noteq> 0
                  then take (length m' - f) m' @ ''.'' @ drop (length m' - f) m' else m)
      in (if x < 0 then ''-'' @ body else body))"

text \<open>An array read \<^verbatim>\<open>xs[i]\<close>: \<^verbatim>\<open>undefined\<close> outside the array.\<close>

definition js_nth :: "jsval list \<Rightarrow> int \<Rightarrow> jsval" where
  "js_nth xs i = (if 0 \<le> i \<and> i < int (length xs) then xs ! nat i else Undefined)"

subsection \<open>SecureRandom\<close>

text \<open>
  \<^verbatim>\<open>generateRandomInteger(range)\<close>: the argument \<open>randomValue\<close> is what
  \<^verbatim>\<open>randomBuffer.readUInt32BE(0)\<close> returned, an unsigned 32-bit integer; \<open>range_arg\<close>
  is the source's \<^verbatim>\<open>range\<close>.
\<close>

definition generateRandomInteger :: "32 word \<Rightarrow> int \<Rightarrow> error + int" where
  "generateRandomInteger randomValue range_arg =
     (if range_arg \<le> 0 then Inl RangeNotPositive
      else Inr (js_rem (uint randomValue) range_arg))"

text \<open>
  The number of 32-bit values \<open>randomValue\<close> for which
  \<^verbatim>\<open>generateRandomInteger(range)\<close> returns \<open>v\<close>.
\<close>

definition draws_mapping_to :: "int \<Rightarrow> int \<Rightarrow> nat" where
  "draws_mapping_to range_arg v =
     card {randomValue :: 32 word. generateRandomInteger randomValue range_arg = Inr v}"

subsection \<open>Dice\<close>

record dice =
  dice_values :: "int list"

definition Dice_new :: "int list \<Rightarrow> error + dice" where
  "Dice_new vs =
     (if length vs \<noteq> 6 then Inl DiceNotSixIntegers
      else if list_ex (\<lambda>v. v < 0) vs then Inl DiceNegativeValue
      else Inr \<lparr>dice_values = vs\<rparr>)"

definition roll :: "dice \<Rightarrow> int \<Rightarrow> error + int" where
  "roll d index =
     (if index < 0 \<or> index \<ge> int (length (dice_values d)) then Inl RollIndexOutOfRange
      else Inr (dice_values d ! nat index))"

text \<open>A loop whose body may throw: the first error ends it.\<close>

fun for_each :: "'i list \<Rightarrow> ('i \<Rightarrow> 's \<Rightarrow> error + 's) \<Rightarrow> 's \<Rightarrow> error + 's" where
  "for_each [] body s = Inr s"
| "for_each (i # is) body s =
     (case body i s of Inl e \<Rightarrow> Inl e | Inr s' \<Rightarrow> for_each is body s')"

subsection \<open>Probability\<close>

text \<open>The inner loop pair of \<^verbatim>\<open>calculateProbabilities\<close>: \<^verbatim>\<open>winCount\<close> for one pair of dice.\<close>

definition winCount :: "dice \<Rightarrow> dice \<Rightarrow> error + nat" where
  "winCount di dj =
     for_each [0..<6] (\<lambda>x. for_each [0..<6] (\<lambda>y count.
       case roll di (int x) of Inl e \<Rightarrow> Inl e | Inr a \<Rightarrow>
       (case roll dj (int y) of Inl e \<Rightarrow> Inl e | Inr b \<Rightarrow>
          Inr (if a > b then count + 1 else count)))) 0"

text \<open>
  The matrix starts as rows of the number 0; every entry off the diagonal is overwritten
  by the string \<^verbatim>\<open>(winCount / 36).toFixed(4)\<close>.
\<close>

definition calculateProbabilities :: "dice list \<Rightarrow> error + jsval list list" where
  "calculateProbabilities diceArray =
     for_each [0..<length diceArray] (\<lambda>i. for_each [0..<length diceArray] (\<lambda>j probabilities.
       if i = j then Inr probabilities
       else case winCount (diceArray ! i) (diceArray ! j) of Inl e \<Rightarrow> Inl e | Inr c \<Rightarrow>
         Inr (probabilities[i := (probabilities ! i)[j := Str (toFixed (of_nat c / 36) 4)]])))
       (replicate (length diceArray) (replicate (length diceArray) (Num 0)))"

subsection \<open>The outside world\<close>

text \<open>
  What the crypto library returns: \<open>randomKey env n\<close> is the hexadecimal string and
  \<open>randomUInt32 env n\<close> the unsigned 32-bit value read from the bytes of the \<open>n\<close>-th call
  of \<^verbatim>\<open>crypto.randomBytes\<close>; \<open>hmac_sha3_256 env key message\<close> is the hexadecimal digest
  of \<^verbatim>\<open>crypto.createHmac('sha3-256', key).update(message)\<close>. The flows below count the
  calls of \<^verbatim>\<open>crypto.randomBytes\<close> in \<open>n\<close>.
\<close>

record env =
  randomKey :: "nat \<Rightarrow> string"
  randomUInt32 :: "nat \<Rightarrow> 32 word"
  hmac_sha3_256 :: "string \<Rightarrow> string \<Rightarrow> string"

definition generateKey :: "env \<Rightarrow> nat \<Rightarrow> string" where
  "generateKey e n = randomKey e n"

definition calculateHMAC :: "env \<Rightarrow> string \<Rightarrow> int \<Rightarrow> string" where
  "calculateHMAC e key message = hmac_sha3_256 e key (number_toString message)"

subsection \<open>Game\<close>

text \<open>
  The \<^verbatim>\<open>Dice\<close> objects are created once, by the constructor, and \<^verbatim>\<open>diceArray\<close> is never
  modified: a reference to a \<^verbatim>\<open>Dice\<close> object is its position in \<open>diceArray\<close>, and
  \<^verbatim>\<open>null\<close> is \<open>None\<close>. Two references are the same object iff the positions are equal.
\<close>

record game =
  diceArray :: "dice list"
  difficulty :: jsval

text \<open>
  \<^verbatim>\<open>this.computerChoice\<close>, read in \<^verbatim>\<open>startGame\<close>: no statement of the program assigns
  this property (\<^verbatim>\<open>computerChoice\<close> of \<^verbatim>\<open>startGame\<close> is a local constant), so the read
  yields \<^verbatim>\<open>undefined\<close>.
\<close>

definition this_computerChoice :: "game \<Rightarrow> jsval" where
  "this_computerChoice this = Undefined"

datatype outcome =
    YouWin            \<comment> \<open>'You win!'\<close>
  | ComputerWins      \<comment> \<open>'Computer wins!'\<close>
  | AwaitingInput     \<comment> \<open>a prompt is open and the human types nothing more\<close>
  | ProcessExit1      \<comment> \<open>\<^verbatim>\<open>process.exit(1)\<close>\<close>

text \<open>What a run shows, in order.\<close>

datatype event =
    HmacCalled string string string
      \<comment> \<open>\<^verbatim>\<open>calculateHMAC(key, message)\<close>: the key, \<^verbatim>\<open>message.toString()\<close>, and the digest printed\<close>
  | KeyRevealed string int       \<comment> \<open>the key and the number of the computer are printed\<close>
  | ResultShown int string int
      \<comment> \<open>'The result is c + u = r (mod 6).': the number of the computer, the answer, the result\<close>
  | RollCalled int               \<comment> \<open>\<^verbatim>\<open>graphicalRoll(index)\<close> is called\<close>
  | Rolled int                   \<comment> \<open>the face value \<^verbatim>\<open>graphicalRoll\<close> prints and returns\<close>
  | InvalidInput                 \<comment> \<open>an 'Invalid ...' message before the prompt is repeated\<close>
  | UserMoveFirstCalled
  | ComputerMoveFirstCalled
  | PlayTurnsCalled nat nat      \<comment> \<open>\<^verbatim>\<open>playTurns(userDice, computerDice)\<close>, by reference\<close>

definition after :: "event list \<Rightarrow> 'a \<times> event list \<Rightarrow> 'a \<times> event list" where
  "after es r = (fst r, es @ snd r)"

definition indexOf :: "dice list \<Rightarrow> nat option \<Rightarrow> int" where
  "indexOf ds excludeDice =
     (case excludeDice of None \<Rightarrow> - 1
      | Some i \<Rightarrow> if i < length ds then int i else - 1)"

definition nth_ref :: "nat list \<Rightarrow> int \<Rightarrow> nat option" where
  "nth_ref xs i = (if 0 \<le> i \<and> i < int (length xs) then Some (xs ! nat i) else None)"

text \<open>
  The two lines that end both branches of \<^verbatim>\<open>selectComputerDice\<close>: filter the dice that
  are not \<^verbatim>\<open>excludeDice\<close>, then index the result by a random integer.
\<close>

definition availableDice :: "game \<Rightarrow> nat option \<Rightarrow> nat list" where
  "availableDice this excludeDice =
     filter (\<lambda>d. Some d \<noteq> excludeDice) [0..<length (diceArray this)]"

definition randomAvailable :: "env \<Rightarrow> game \<Rightarrow> nat option \<Rightarrow> nat \<Rightarrow> error + (nat option \<times> nat)" where
  "randomAvailable e this excludeDice n =
     (case generateRandomInteger (randomUInt32 e n) (int (length (availableDice this excludeDice))) of
        Inl err \<Rightarrow> Inl err
      | Inr k \<Rightarrow> Inr (nth_ref (availableDice this excludeDice) k, Suc n))"

text \<open>The body of the \<^verbatim>\<open>forEach\<close> of \<^verbatim>\<open>selectComputerDice\<close>, on (bestDice, bestProbability).\<close>

definition bestStep :: "jsval list list \<Rightarrow> int \<Rightarrow> nat \<Rightarrow> nat option \<times> jsval \<Rightarrow> nat option \<times> jsval" where
  "bestStep probabilities excludeIndex index best =
     (if int index \<noteq> excludeIndex then
        (let winProbability = js_or (js_nth (probabilities ! index) excludeIndex) (Num 0) in
         if js_greater winProbability (snd best) then (Some index, winProbability) else best)
      else best)"

definition selectComputerDice :: "env \<Rightarrow> game \<Rightarrow> nat option \<Rightarrow> nat \<Rightarrow> error + (nat option \<times> nat)" where
  "selectComputerDice e this excludeDice n =
     (if strict_equals (difficulty this) (Str ''medium'') then
        (case calculateProbabilities (diceArray this) of
           Inl err \<Rightarrow> Inl err
         | Inr probabilities \<Rightarrow>
            (let excludeIndex = indexOf (diceArray this) excludeDice;
                 best = fold (bestStep probabilities excludeIndex)
                          [0..<length (diceArray this)] (None, Num (- 1))
             in case fst best of
                  Some bestDice \<Rightarrow> Inr (Some bestDice, n)
                | None \<Rightarrow> randomAvailable e this excludeDice n))
      else randomAvailable e this excludeDice n)"

text \<open>The test \<^verbatim>\<open>/^[1-9]\d*$/\<close>.\<close>

definition positiveInteger :: "string \<Rightarrow> bool" where
  "positiveInteger s =
     (case s of [] \<Rightarrow> False | c # cs \<Rightarrow> c \<in> set ''123456789'' \<and> list_all is_digit cs)"

text \<open>
  \<^verbatim>\<open>selectDice\<close>: the answers of the human, each as \<^verbatim>\<open>getUserInput\<close> returns it
  (trimmed), are read from a list; the result is the chosen reference and the answers not
  yet read, or \<open>None\<close> when the prompt stays open for ever.
\<close>

fun selectDice :: "game \<Rightarrow> string list \<Rightarrow> (nat \<times> string list) option" where
  "selectDice this [] = None"
| "selectDice this (choice # answers) =
     (if \<not> positiveInteger choice \<or> parse_decimal choice < 1
         \<or> parse_decimal choice > length (diceArray this)
      then selectDice this answers
      else Some (parse_decimal choice - 1, answers))"

text \<open>
  \<^verbatim>\<open>playTurns\<close>: \<open>n\<close> calls of \<^verbatim>\<open>crypto.randomBytes\<close> were made before, \<open>answers\<close> are the
  answers of the human still to come. The result is how the call ends, with what it showed.
  An invalid answer starts the function again, as the source does.
\<close>

definition throwOptions :: "string list" where
  "throwOptions = [''0'', ''1'', ''2'', ''3'', ''4'', ''5'']"

fun playTurns :: "env \<Rightarrow> dice \<Rightarrow> dice \<Rightarrow> nat \<Rightarrow> string list \<Rightarrow> (error + outcome) \<times> event list" where
  "playTurns e userDice computerDice n [] =
     (case generateRandomInteger (randomUInt32 e (n + 1)) 6 of
        Inl err \<Rightarrow> (Inl err, [])
      | Inr computerRollIndex1 \<Rightarrow>
          (Inr AwaitingInput, [HmacCalled (generateKey e n) (number_toString computerRollIndex1)
            (calculateHMAC e (generateKey e n) computerRollIndex1)]))"
| "playTurns e userDice computerDice n (userThrow1 # answers1) =
     (case generateRandomInteger (randomUInt32 e (n + 1)) 6 of
        Inl err \<Rightarrow> (Inl err, [])
      | Inr computerRollIndex1 \<Rightarrow>
          after [HmacCalled (generateKey e n) (number_toString computerRollIndex1)
            (calculateHMAC e (generateKey e n) computerRollIndex1)]
          (if userThrow1 \<notin> set throwOptions
           then after [InvalidInput] (playTurns e userDice computerDice (n + 2) answers1)
           else
             after [KeyRevealed (generateKey e n) computerRollIndex1,
                    ResultShown computerRollIndex1 userThrow1
                      (js_rem (int (parse_decimal userThrow1) + computerRollIndex1) 6),
                    RollCalled (js_rem (int (parse_decimal userThrow1) + computerRollIndex1) 6)]
             (case roll computerDice (js_rem (int (parse_decimal userThrow1) + computerRollIndex1) 6) of
                Inl err \<Rightarrow> (Inl err, [])
              | Inr computerRoll \<Rightarrow>
                 after [Rolled computerRoll]
                 (case generateRandomInteger (randomUInt32 e (n + 3)) 6 of
                    Inl err \<Rightarrow> (Inl err, [])
                  | Inr computerRollIndex2 \<Rightarrow>
                     after [HmacCalled (generateKey e (n + 2)) (number_toString computerRollIndex2)
            (calculateHMAC e (generateKey e (n + 2)) computerRollIndex2)]
                     (case answers1 of
                        [] \<Rightarrow> (Inr AwaitingInput, [])
                      | userThrow2 # answers2 \<Rightarrow>
                         if userThrow2 \<notin> set throwOptions
                         then after [InvalidInput] (playTurns e userDice computerDice (n + 4) answers2)
                         else
                           after [KeyRevealed (generateKey e (n + 2)) computerRollIndex2,
                                  ResultShown computerRollIndex2 userThrow2
                                    (js_rem (int (parse_decimal userThrow2) + computerRollIndex2) 6),
                                  RollCalled (js_rem (int (parse_decimal userThrow2) + computerRollIndex2) 6)]
                           (case roll userDice (js_rem (int (parse_decimal userThrow2) + computerRollIndex2) 6) of
                              Inl err \<Rightarrow> (Inl err, [])
                            | Inr userDiceRoll \<Rightarrow>
                               after [Rolled userDiceRoll]
                               (if userDiceRoll > computerRoll then (Inr YouWin, [])
                                else (Inr ComputerWins, []))))))))"

definition userMoveFirst :: "env \<Rightarrow> game \<Rightarrow> nat \<Rightarrow> string list \<Rightarrow> (error + outcome) \<times> event list" where
  "userMoveFirst e this n answers =
     (case selectDice this answers of
        None \<Rightarrow> (Inr AwaitingInput, [])
      | Some (userDice, answers') \<Rightarrow>
         (case selectComputerDice e this (Some userDice) n of
            Inl err \<Rightarrow> (Inl err, [])
          | Inr (None, n') \<Rightarrow> (Inl TypeError, [])
          | Inr (Some computerDice, n') \<Rightarrow>
             after [PlayTurnsCalled userDice computerDice]
               (playTurns e (diceArray this ! userDice) (diceArray this ! computerDice) n' answers')))"

definition computerMoveFirst :: "env \<Rightarrow> game \<Rightarrow> nat \<Rightarrow> string list \<Rightarrow> (error + outcome) \<times> event list" where
  "computerMoveFirst e this n answers =
     (case selectComputerDice e this None n of
        Inl err \<Rightarrow> (Inl err, [])
      | Inr (None, n') \<Rightarrow> (Inr ProcessExit1, [])
      | Inr (Some computerDice, n') \<Rightarrow>
         (case selectDice this answers of
            None \<Rightarrow> (Inr AwaitingInput, [])
          | Some (userDice, answers') \<Rightarrow>
             after [PlayTurnsCalled userDice computerDice]
               (playTurns e (diceArray this ! userDice) (diceArray this ! computerDice) n' answers')))"

fun startGame :: "env \<Rightarrow> game \<Rightarrow> nat \<Rightarrow> string list \<Rightarrow> (error + outcome) \<times> event list" where
  "startGame e this n [] = (Inr AwaitingInput, [])"
| "startGame e this n [difficultyAnswer] =
     (case generateRandomInteger (randomUInt32 e (n + 1)) 2 of
        Inl err \<Rightarrow> (Inl err, [])
      | Inr computerChoice \<Rightarrow>
          (Inr AwaitingInput, [HmacCalled (generateKey e n) (number_toString computerChoice)
            (calculateHMAC e (generateKey e n) computerChoice)]))"
| "startGame e this n (difficultyAnswer # userGuess # answers) =
     (let this' = this\<lparr>difficulty :=
                   (if difficultyAnswer = ''2'' then Str ''medium'' else Str ''easy'')\<rparr> in
      case generateRandomInteger (randomUInt32 e (n + 1)) 2 of
        Inl err \<Rightarrow> (Inl err, [])
      | Inr computerChoice \<Rightarrow>
          after [HmacCalled (generateKey e n) (number_toString computerChoice)
            (calculateHMAC e (generateKey e n) computerChoice)]
          (if userGuess \<notin> set [''0'', ''1'']
           then after [InvalidInput] (startGame e this' (n + 2) answers)
           else if strict_equals (Num (of_nat (parse_decimal userGuess))) (this_computerChoice this')
           then after [KeyRevealed (generateKey e n) computerChoice, UserMoveFirstCalled]
                  (userMoveFirst e this' (n + 2) answers)
           else after [KeyRevealed (generateKey e n) computerChoice, ComputerMoveFirstCalled]
                  (computerMoveFirst e this' (n + 2) answers)))"

subsection \<open>Reading a run\<close>

text \<open>
  The comparison that ends a round: the run ends with the face value of the computer, the
  second commitment, its reveal, the result line, and the roll of the human.
\<close>

definition ends_in_comparison :: "event list \<Rightarrow> int \<Rightarrow> int \<Rightarrow> bool" where
  "ends_in_comparison es computerRoll userDiceRoll =
     (\<exists>pre k m h v t r i. es = pre @ [Rolled computerRoll, HmacCalled k m h, KeyRevealed k v,
                                  ResultShown v t r, RollCalled i, Rolled userDiceRoll])"

definition final_rolls :: "event list \<Rightarrow> (int \<times> int) option" where
  "final_rolls es =
     (case rev es of
        Rolled userDiceRoll # RollCalled i # ResultShown v' t r # KeyRevealed k v # HmacCalled k' m h
          # Rolled computerRoll # _
          \<Rightarrow> Some (computerRoll, userDiceRoll)
      | _ \<Rightarrow> None)"

text \<open>
  A run that has declared no winner does not end with a rolled face value.
\<close>

definition round_open :: "(error + outcome) \<times> event list \<Rightarrow> bool" where
  "round_open r = (fst r = Inr YouWin \<or> fst r = Inr ComputerWins
                   \<or> (snd r \<noteq> [] \<and> (\<forall>v. last (snd r) \<noteq> Rolled v)))"





subsection \<open>Counts and formats\<close>

text \<open>
  The number of the 36 ordered pairs of face positions in which the first dice shows the
  strictly greater face, and the number of pairs in which the faces are equal.
\<close>

definition pairs_won :: "dice \<Rightarrow> dice \<Rightarrow> nat" where
  "pairs_won di dj =
     card {(x, y). x < 6 \<and> y < 6 \<and> dice_values di ! x > dice_values dj ! y}"

definition pairs_tied :: "dice \<Rightarrow> dice \<Rightarrow> nat" where
  "pairs_tied di dj =
     card {(x, y). x < 6 \<and> y < 6 \<and> dice_values di ! x = dice_values dj ! y}"

text \<open>Every dice of the list has six faces, as the constructor demands.\<close>

definition six_faces :: "dice list \<Rightarrow> bool" where
  "six_faces ds = list_all (\<lambda>d. length (dice_values d) = 6) ds"

text \<open>
  The numeral of \<open>n / 10000\<close> with one digit before the point and four after it, for
  \<open>n < 100000\<close>; \<open>rounded k\<close> is \<open>k / 36\<close> in units of \<open>1 / 10000\<close>, rounded to the nearest.
\<close>

definition fixed4 :: "nat \<Rightarrow> string" where
  "fixed4 n = [digit_char (n div 10000), CHR ''.'', digit_char (n div 1000 mod 10),
               digit_char (n div 100 mod 10), digit_char (n div 10 mod 10), digit_char (n mod 10)]"

definition rounded :: "nat \<Rightarrow> nat" where
  "rounded k = (k * 10000 + 18) div 36"

text \<open>
  The state (bestDice, bestProbability) of the loop of \<^verbatim>\<open>selectComputerDice\<close> after the
  positions before \<open>m\<close>, for the win counts \<open>c\<close> against the excluded position \<open>e\<close>: nothing
  chosen yet, or the first position with the greatest count.
\<close>

definition best_so_far :: "(nat \<Rightarrow> nat) \<Rightarrow> nat \<Rightarrow> nat \<Rightarrow> nat option \<times> jsval \<Rightarrow> bool" where
  "best_so_far c e m best =
     (case fst best of
        None \<Rightarrow> snd best = Num (- 1) \<and> (\<forall>i < m. i = e)
      | Some b \<Rightarrow> b < m \<and> b \<noteq> e \<and> snd best = Str (toFixed (of_nat (c b) / 36) 4)
          \<and> (\<forall>i < m. i \<noteq> e \<longrightarrow> c i \<le> c b) \<and> (\<forall>i < b. i \<noteq> e \<longrightarrow> c i < c b))"

subsection \<open>Concrete instances\<close>

text \<open>
  An outside world for concrete runs: every key is \<^verbatim>\<open>4b1d\<close>, the \<open>n\<close>-th random value is
  \<open>n\<close>, and a digest is the key followed by the message. The dice are those of the usage
  message of the program.
\<close>

definition example_env :: env where
  "example_env = \<lparr>randomKey = (\<lambda>n. ''4b1d''), randomUInt32 = (\<lambda>n. of_nat n),
                   hmac_sha3_256 = (\<lambda>key message. key @ message)\<rparr>"

definition example_dice :: "dice list" where
  "example_dice = [\<lparr>dice_values = [2, 2, 4, 4, 9, 9]\<rparr>,
                   \<lparr>dice_values = [6, 8, 1, 1, 8, 6]\<rparr>,
                   \<lparr>dice_values = [7, 5, 3, 7, 5, 3]\<rparr>]"

section \<open>Properties\<close>

subsection \<open>The random integer\<close>

lemma card_mod_eq_below:
  fixes r v :: nat
  assumes "v < r"
  shows "card {i. i < N \<and> i mod r = v} = N div r + (if v < N mod r then 1 else 0)"
proof (induction N)
  case 0
  then show ?case by simp
next
  case (Suc N)
  have split: "{i. i < Suc N \<and> i mod r = v} =
      (if N mod r = v then insert N {i. i < N \<and> i mod r = v} else {i. i < N \<and> i mod r = v})"
    by (auto simp: less_Suc_eq)
  have fin: "finite {i. i < N \<and> i mod r = v}" by simp
  have notin: "N \<notin> {i. i < N \<and> i mod r = v}" by simp
  have "card {i. i < Suc N \<and> i mod r = v} =
      (if N mod r = v then 1 else 0) + card {i. i < N \<and> i mod r = v}"
    unfolding split using fin notin by simp
  also have "\<dots> = (if N mod r = v then 1 else 0) + (N div r + (if v < N mod r then 1 else 0))"
    by (simp only: Suc.IH)
  also have "\<dots> = Suc N div r + (if v < Suc N mod r then 1 else 0)"
    using assms by (auto simp: div_Suc mod_Suc)
  finally show ?case .
qed

lemma js_rem_nonneg: "0 \<le> a \<Longrightarrow> 0 < b \<Longrightarrow> js_rem a b = a mod b"
  by (cases "a = 0") (simp_all add: js_rem_def)

lemma generateRandomInteger_positive:
  "0 < r \<Longrightarrow> generateRandomInteger w r = Inr (uint w mod r)"
  by (simp add: generateRandomInteger_def js_rem_nonneg)

lemma card_word_pred:
  "card {w :: 32 word. P (unat w)} = card {i. i < 2 ^ 32 \<and> P i}"
proof -
  have "unat ` {w :: 32 word. P (unat w)} = {i. i < 2 ^ 32 \<and> P i}"
  proof (rule set_eqI, rule iffI)
    fix i assume "i \<in> unat ` {w :: 32 word. P (unat w)}"
    then obtain w :: "32 word" where "i = unat w" "P (unat w)" by auto
    moreover have "unat w < 2 ^ 32" using unsigned_less [of w] by simp
    ultimately show "i \<in> {i. i < 2 ^ 32 \<and> P i}" by simp
  next
    fix i assume "i \<in> {i. i < 2 ^ 32 \<and> P i}"
    then have i: "i < 2 ^ 32" "P i" by auto
    then have "unat (of_nat i :: 32 word) = i" by (simp add: unat_of_nat)
    with i show "i \<in> unat ` {w :: 32 word. P (unat w)}"
      by (metis (mono_tags, lifting) image_eqI mem_Collect_eq)
  qed
  moreover have "inj_on unat {w :: 32 word. P (unat w)}"
    by (rule inj_onI) (simp add: word_unat_eq_iff)
  ultimately show ?thesis by (metis card_image)
qed

lemma draws_mapping_to_count:
  assumes "0 < r" "0 \<le> v" "v < r"
  shows "draws_mapping_to r v = nat (2 ^ 32 div r) + (if v < 2 ^ 32 mod r then 1 else 0)"
proof -
  have eq: "\<And>w :: 32 word. (generateRandomInteger w r = Inr v) = (unat w mod nat r = nat v)"
  proof -
    fix w :: "32 word"
    have "uint w mod r = int (unat w mod nat r)"
      using assms by (simp add: zmod_int)
    then show "(generateRandomInteger w r = Inr v) = (unat w mod nat r = nat v)"
      using assms by (auto simp: generateRandomInteger_positive)
  qed
  have "draws_mapping_to r v = card {w :: 32 word. unat w mod nat r = nat v}"
    by (simp add: draws_mapping_to_def eq)
  also have "\<dots> = card {i. i < 2 ^ 32 \<and> i mod nat r = nat v}"
    by (rule card_word_pred [where P = "\<lambda>i. i mod nat r = nat v"])
  also have "\<dots> = 2 ^ 32 div nat r + (if nat v < 2 ^ 32 mod nat r then 1 else 0)"
    using assms by (intro card_mod_eq_below) simp
  also have "\<dots> = nat (2 ^ 32 div r) + (if v < 2 ^ 32 mod r then 1 else 0)"
  proof -
    have a: "int (2 ^ 32 div nat r) = 2 ^ 32 div r"
      using assms by (simp add: zdiv_int)
    have b: "int (2 ^ 32 mod nat r) = 2 ^ 32 mod r"
      using assms by (simp add: zmod_int)
    have c: "(nat v < 2 ^ 32 mod nat r) = (v < 2 ^ 32 mod r)"
      using assms b by linarith
    have d: "2 ^ 32 div nat r = nat (2 ^ 32 div r)"
      using a by linarith
    show ?thesis by (simp only: c d)
  qed
  finally show ?thesis .
qed

text \<open>
  Claim C1, as stated: \<^verbatim>\<open>generateRandomInteger\<close> is uniform, every value of
  \<open>[0, range)\<close> having the same number of 32-bit draws. It is not: for the range 6 of a
  throw, the value 0 is the image of one more draw than the value 5.
\<close>

theorem generateRandomInteger_biased:
  "draws_mapping_to 6 0 = 715827883 \<and> draws_mapping_to 6 5 = 715827882"
  by (simp add: draws_mapping_to_count)

text \<open>
  Claim C1, amended: for a positive range the function returns the remainder of the one
  32-bit draw, a value of \<open>[0, range)\<close>, without rejecting any draw; the value \<open>v\<close> is
  the image of \<open>2 ^ 32 div range\<close> draws, and of one more when \<open>v < 2 ^ 32 mod range\<close>; all
  values have the same number of draws exactly when the range divides \<open>2 ^ 32\<close>.
\<close>

theorem generateRandomInteger_naive_modulo:
  assumes "0 < r"
  shows "generateRandomInteger w r = Inr (uint w mod r)
       \<and> 0 \<le> uint w mod r \<and> uint w mod r < r
       \<and> (\<forall>v. 0 \<le> v \<and> v < r \<longrightarrow>
            draws_mapping_to r v = nat (2 ^ 32 div r) + (if v < 2 ^ 32 mod r then 1 else 0))
       \<and> ((\<forall>v v'. 0 \<le> v \<and> v < r \<and> 0 \<le> v' \<and> v' < r \<longrightarrow>
              draws_mapping_to r v = draws_mapping_to r v') \<longleftrightarrow> r dvd 2 ^ 32)"
proof -
  have count: "\<forall>v. 0 \<le> v \<and> v < r \<longrightarrow>
      draws_mapping_to r v = nat (2 ^ 32 div r) + (if v < 2 ^ 32 mod r then 1 else 0)"
    using assms by (simp add: draws_mapping_to_count)
  have uniform: "(\<forall>v v'. 0 \<le> v \<and> v < r \<and> 0 \<le> v' \<and> v' < r \<longrightarrow>
      draws_mapping_to r v = draws_mapping_to r v') \<longleftrightarrow> r dvd 2 ^ 32"
  proof
    assume u: "\<forall>v v'. 0 \<le> v \<and> v < r \<and> 0 \<le> v' \<and> v' < r \<longrightarrow>
      draws_mapping_to r v = draws_mapping_to r v'"
    show "r dvd 2 ^ 32"
    proof (rule ccontr)
      assume "\<not> r dvd 2 ^ 32"
      then have pos: "0 < (2 ^ 32 :: int) mod r"
        using assms by (simp add: dvd_eq_mod_eq_0 pos_mod_sign less_le)
      have top: "\<not> r - 1 < (2 ^ 32 :: int) mod r"
        using assms pos_mod_bound [of r "2 ^ 32"] by linarith
      have "draws_mapping_to r 0 = draws_mapping_to r (r - 1)"
        using u assms by simp
      moreover have "draws_mapping_to r 0 = nat (2 ^ 32 div r) + 1"
        using count assms pos by simp
      moreover have "draws_mapping_to r (r - 1) = nat (2 ^ 32 div r)"
        using count assms top by simp
      ultimately show False by simp
    qed
  next
    assume "r dvd 2 ^ 32"
    then have "(2 ^ 32 :: int) mod r = 0" by simp
    then show "\<forall>v v'. 0 \<le> v \<and> v < r \<and> 0 \<le> v' \<and> v' < r \<longrightarrow>
      draws_mapping_to r v = draws_mapping_to r v'"
      using count by simp
  qed
  show ?thesis
    using assms count uniform by (simp add: generateRandomInteger_positive)
qed

theorem generateRandomInteger_naive_modulo_witness:
  "generateRandomInteger 7 6 = Inr 1
   \<and> draws_mapping_to 6 3 = 715827883 \<and> draws_mapping_to 6 4 = 715827882
   \<and> draws_mapping_to 2 0 = draws_mapping_to 2 1"
  using generateRandomInteger_naive_modulo [of 6 7] generateRandomInteger_naive_modulo [of 2 0]
  by simp


subsection \<open>Throws\<close>

lemma js_rem_6_bounds: "0 \<le> a \<Longrightarrow> 0 \<le> js_rem a 6 \<and> js_rem a 6 < 6"
  by (simp add: js_rem_nonneg)

lemma generateRandomInteger_6: "generateRandomInteger w 6 = Inr (uint w mod 6)"
  by (simp add: generateRandomInteger_positive)

lemma roll_in_range:
  "0 \<le> i \<Longrightarrow> i < int (length (dice_values d)) \<Longrightarrow> roll d i = Inr (dice_values d ! nat i)"
  by (simp add: roll_def)

lemma throw_index:
  "0 \<le> js_rem (int (parse_decimal u) + uint w mod 6) 6 \<and> js_rem (int (parse_decimal u) + uint w mod 6) 6 < 6"
  by (rule js_rem_6_bounds) simp

lemma fst_after [simp]: "fst (after es r) = fst r"
  by (simp add: after_def)

lemma snd_after [simp]: "snd (after es r) = es @ snd r"
  by (simp add: after_def)

lemma throw_roll:
  assumes "length (dice_values d) = 6"
  shows "roll d (js_rem (int (parse_decimal u) + uint w mod 6) 6)
         = Inr (dice_values d ! nat (js_rem (int (parse_decimal u) + uint w mod 6) 6))"
  using assms throw_index [of u w] by (simp add: roll_in_range)

lemma throw_face:
  assumes "length (dice_values d) = 6"
  shows "dice_values d ! nat (js_rem (int (parse_decimal u) + uint w mod 6) 6) \<in> set (dice_values d)"
proof (rule nth_mem)
  show "nat (js_rem (int (parse_decimal u) + uint w mod 6) 6) < length (dice_values d)"
    using assms throw_index [of u w] by linarith
qed

lemma playTurns_no_error:
  assumes "length (dice_values userDice) = 6" "length (dice_values computerDice) = 6"
  shows "\<exists>out. fst (playTurns e userDice computerDice n answers) = Inr out"
  using assms
proof (induction e userDice computerDice n answers rule: playTurns.induct)
  case (1 e userDice computerDice n)
  then show ?case by (simp add: generateRandomInteger_6)
next
  case (2 e userDice computerDice n userThrow1 answers1)
  then show ?case
    by (simp add: generateRandomInteger_6 throw_roll split: list.split)
qed

lemma playTurns_events:
  assumes "length (dice_values userDice) = 6" "length (dice_values computerDice) = 6"
  shows "\<forall>ev \<in> set (snd (playTurns e userDice computerDice n answers)).
           (case ev of RollCalled i \<Rightarrow> 0 \<le> i \<and> i < 6
            | Rolled v \<Rightarrow> v \<in> set (dice_values userDice) \<union> set (dice_values computerDice)
            | _ \<Rightarrow> True)"
  using assms
proof (induction e userDice computerDice n answers rule: playTurns.induct)
  case (1 e userDice computerDice n)
  then show ?case by (simp add: generateRandomInteger_6)
next
  case (2 e userDice computerDice n userThrow1 answers1)
  then show ?case
    by (simp add: generateRandomInteger_6 throw_roll throw_index throw_face split: list.split)
qed

lemma Dice_new_length: "Dice_new vs = Inr d \<Longrightarrow> length (dice_values d) = 6"
  by (auto simp: Dice_new_def split: if_splits)

lemma parse_decimal_throw: "u \<in> set throwOptions \<Longrightarrow> parse_decimal u < 6"
  by (auto simp: throwOptions_def parse_decimal_def digit_value_def)

lemma decimal_digit: "n < 10 \<Longrightarrow> decimal n = [digit_char n]"
  by (simp add: decimal.simps)

text \<open>
  Claim C10: for dice built by the constructor, every accepted contribution of the human
  and every draw of \<^verbatim>\<open>generateRandomInteger(6)\<close> combine to a face index of \<open>[0, 6)\<close>,
  on which \<^verbatim>\<open>roll\<close> returns the face; \<^verbatim>\<open>playTurns\<close> never ends in an error, every index
  it passes to \<^verbatim>\<open>graphicalRoll\<close> is in \<open>[0, 6)\<close> and every value rolled is a face of one of
  the two dice.
\<close>

theorem throw_never_out_of_range:
  assumes "Dice_new uvs = Inr userDice" and "Dice_new cvs = Inr computerDice"
  shows "(\<forall>u w. u \<in> set throwOptions \<longrightarrow>
            (\<exists>c. generateRandomInteger w 6 = Inr c \<and> parse_decimal u < 6 \<and> 0 \<le> c \<and> c < 6
               \<and> 0 \<le> js_rem (int (parse_decimal u) + c) 6
               \<and> js_rem (int (parse_decimal u) + c) 6 < 6
               \<and> roll computerDice (js_rem (int (parse_decimal u) + c) 6)
                   = Inr (dice_values computerDice ! nat (js_rem (int (parse_decimal u) + c) 6))
               \<and> roll userDice (js_rem (int (parse_decimal u) + c) 6)
                   = Inr (dice_values userDice ! nat (js_rem (int (parse_decimal u) + c) 6))))
       \<and> (\<exists>out. fst (playTurns e userDice computerDice n answers) = Inr out)
       \<and> (\<forall>ev \<in> set (snd (playTurns e userDice computerDice n answers)).
             case ev of RollCalled i \<Rightarrow> 0 \<le> i \<and> i < 6
             | Rolled v \<Rightarrow> v \<in> set (dice_values userDice) \<union> set (dice_values computerDice)
             | _ \<Rightarrow> True)"
proof -
  have lu: "length (dice_values userDice) = 6" and lc: "length (dice_values computerDice) = 6"
    using assms by (simp_all add: Dice_new_length)
  have one: "\<exists>c. generateRandomInteger w 6 = Inr c \<and> parse_decimal u < 6 \<and> 0 \<le> c \<and> c < 6
               \<and> 0 \<le> js_rem (int (parse_decimal u) + c) 6
               \<and> js_rem (int (parse_decimal u) + c) 6 < 6
               \<and> roll computerDice (js_rem (int (parse_decimal u) + c) 6)
                   = Inr (dice_values computerDice ! nat (js_rem (int (parse_decimal u) + c) 6))
               \<and> roll userDice (js_rem (int (parse_decimal u) + c) 6)
                   = Inr (dice_values userDice ! nat (js_rem (int (parse_decimal u) + c) 6))"
    if "u \<in> set throwOptions" for u w
    using that throw_index [of u w] throw_roll [OF lu, of u w] throw_roll [OF lc, of u w]
    by (simp add: generateRandomInteger_6 parse_decimal_throw)
  show ?thesis
    using one playTurns_no_error [OF lu lc] playTurns_events [OF lu lc] by blast
qed

theorem throw_never_out_of_range_witness:
  "Dice_new [2, 2, 4, 4, 9, 9] = Inr \<lparr>dice_values = [2, 2, 4, 4, 9, 9]\<rparr>
   \<and> Dice_new [6, 8, 1, 1, 8, 6] = Inr \<lparr>dice_values = [6, 8, 1, 1, 8, 6]\<rparr>
   \<and> ''5'' \<in> set throwOptions
   \<and> generateRandomInteger 4 6 = Inr 4
   \<and> roll \<lparr>dice_values = [6, 8, 1, 1, 8, 6]\<rparr> (js_rem (int (parse_decimal ''5'') + 4) 6) = Inr 1
   \<and> (\<exists>out. fst (playTurns example_env \<lparr>dice_values = [2, 2, 4, 4, 9, 9]\<rparr>
                \<lparr>dice_values = [6, 8, 1, 1, 8, 6]\<rparr> 0 [''5'', ''2'']) = Inr out)
   \<and> RollCalled 0 \<in> set (snd (playTurns example_env \<lparr>dice_values = [2, 2, 4, 4, 9, 9]\<rparr>
                \<lparr>dice_values = [6, 8, 1, 1, 8, 6]\<rparr> 0 [''5'', ''2'']))"
  using throw_never_out_of_range [of "[2, 2, 4, 4, 9, 9]" "\<lparr>dice_values = [2, 2, 4, 4, 9, 9]\<rparr>"
      "[6, 8, 1, 1, 8, 6]" "\<lparr>dice_values = [6, 8, 1, 1, 8, 6]\<rparr>" example_env 0 "[''5'', ''2'']"]
  by (simp add: Dice_new_def throwOptions_def generateRandomInteger_6 example_env_def
      parse_decimal_def digit_value_def js_rem_nonneg roll_def generateKey_def number_toString_def
      decimal_digit digit_char_def)


subsection \<open>The comparison of the two throws\<close>

lemma ends_in_comparison_after:
  "ends_in_comparison (snd r) c u \<Longrightarrow> ends_in_comparison (snd (after es r)) c u"
  unfolding ends_in_comparison_def
proof -
  assume "\<exists>pre k m h v t q i. snd r = pre @ [Rolled c, HmacCalled k m h, KeyRevealed k v, ResultShown v t q, RollCalled i, Rolled u]"
  then obtain pre k m h v t q i where "snd r = pre @ [Rolled c, HmacCalled k m h, KeyRevealed k v, ResultShown v t q, RollCalled i, Rolled u]"
    by blast
  then have "snd (after es r) = (es @ pre) @ [Rolled c, HmacCalled k m h, KeyRevealed k v, ResultShown v t q, RollCalled i, Rolled u]"
    by simp
  then show "\<exists>pre k m h v t q i. snd (after es r) = pre @ [Rolled c, HmacCalled k m h, KeyRevealed k v, ResultShown v t q, RollCalled i, Rolled u]"
    by blast
qed

lemma ends_in_comparison_direct:
  "ends_in_comparison (pre @ [Rolled c, HmacCalled k m h, KeyRevealed k v, ResultShown v t q, RollCalled i, Rolled u]) c u"
  unfolding ends_in_comparison_def by blast

lemma comparison_after:
  assumes "\<exists>c u. ends_in_comparison (snd r) c u \<and> out = (if u > c then YouWin else ComputerWins)"
  shows "\<exists>c u. ends_in_comparison (snd (after es r)) c u
           \<and> out = (if u > c then YouWin else ComputerWins)"
  using assms by (blast intro: ends_in_comparison_after)

lemma playTurns_comparison:
  assumes "fst (playTurns e userDice computerDice n answers) = Inr out"
    and "out = YouWin \<or> out = ComputerWins"
  shows "\<exists>computerRoll userDiceRoll.
           ends_in_comparison (snd (playTurns e userDice computerDice n answers)) computerRoll userDiceRoll
           \<and> out = (if userDiceRoll > computerRoll then YouWin else ComputerWins)"
  using assms
proof (induction e userDice computerDice n answers rule: playTurns.induct)
  case (1 e userDice computerDice n)
  then show ?case by (auto split: sum.splits)
next
  case (2 e userDice computerDice n userThrow1 answers1)
  show ?case
  proof (cases "generateRandomInteger (randomUInt32 e (n + 1)) 6")
    case (Inl err)
    with 2 show ?thesis by simp
  next
    case c1: (Inr computerRollIndex1)
    show ?thesis
    proof (cases "userThrow1 \<in> set throwOptions")
      case False
      have eq: "playTurns e userDice computerDice n (userThrow1 # answers1) =
          after [HmacCalled (generateKey e n) (number_toString computerRollIndex1)
            (calculateHMAC e (generateKey e n) computerRollIndex1)]
            (after [InvalidInput] (playTurns e userDice computerDice (n + 2) answers1))"
        using c1 False by simp
      have "fst (playTurns e userDice computerDice (n + 2) answers1) = Inr out"
        using "2.prems"(1) unfolding eq by simp
      then have "\<exists>c u. ends_in_comparison (snd (playTurns e userDice computerDice (n + 2) answers1)) c u
           \<and> out = (if u > c then YouWin else ComputerWins)"
        using "2.IH"(1) [OF c1 False] "2.prems"(2) by blast
      then show ?thesis
        unfolding eq by (intro comparison_after)
    next
      case t1: True
      show ?thesis
      proof (cases "roll computerDice (js_rem (int (parse_decimal userThrow1) + computerRollIndex1) 6)")
        case (Inl err)
        with 2 c1 t1 show ?thesis by simp
      next
        case r1: (Inr computerRoll)
        show ?thesis
        proof (cases "generateRandomInteger (randomUInt32 e (n + 3)) 6")
          case (Inl err)
          with 2 c1 t1 r1 show ?thesis by simp
        next
          case c2: (Inr computerRollIndex2)
          show ?thesis
          proof (cases answers1)
            case Nil
            with 2 c1 t1 r1 c2 show ?thesis by auto
          next
            case (Cons userThrow2 answers2)
            show ?thesis
            proof (cases "userThrow2 \<in> set throwOptions")
              case False
              have eq: "playTurns e userDice computerDice n (userThrow1 # answers1) =
                  after [HmacCalled (generateKey e n) (number_toString computerRollIndex1)
            (calculateHMAC e (generateKey e n) computerRollIndex1)]
                  (after [KeyRevealed (generateKey e n) computerRollIndex1,
                          ResultShown computerRollIndex1 userThrow1
                            (js_rem (int (parse_decimal userThrow1) + computerRollIndex1) 6),
                          RollCalled (js_rem (int (parse_decimal userThrow1) + computerRollIndex1) 6)]
                  (after [Rolled computerRoll]
                  (after [HmacCalled (generateKey e (n + 2)) (number_toString computerRollIndex2)
            (calculateHMAC e (generateKey e (n + 2)) computerRollIndex2)]
                  (after [InvalidInput] (playTurns e userDice computerDice (n + 4) answers2)))))"
                using c1 t1 r1 c2 Cons False by simp
              have "fst (playTurns e userDice computerDice (n + 4) answers2) = Inr out"
                using "2.prems"(1) unfolding eq by simp
              then have "\<exists>c u. ends_in_comparison (snd (playTurns e userDice computerDice (n + 4) answers2)) c u
                   \<and> out = (if u > c then YouWin else ComputerWins)"
                using "2.IH"(2) [OF c1 _ r1 c2 Cons False] t1 "2.prems"(2) by blast
              then show ?thesis
                unfolding eq by (intro comparison_after)
            next
              case t2: True
              show ?thesis
              proof (cases "roll userDice (js_rem (int (parse_decimal userThrow2) + computerRollIndex2) 6)")
                case (Inl err)
                with 2 c1 t1 r1 c2 Cons t2 show ?thesis by simp
              next
                case r2: (Inr userDiceRoll)
                have ev: "snd (playTurns e userDice computerDice n (userThrow1 # answers1)) =
                  [HmacCalled (generateKey e n) (number_toString computerRollIndex1)
            (calculateHMAC e (generateKey e n) computerRollIndex1),
                   KeyRevealed (generateKey e n) computerRollIndex1,
                   ResultShown computerRollIndex1 userThrow1
                     (js_rem (int (parse_decimal userThrow1) + computerRollIndex1) 6),
                   RollCalled (js_rem (int (parse_decimal userThrow1) + computerRollIndex1) 6)] @
                  [Rolled computerRoll,
                   HmacCalled (generateKey e (n + 2)) (number_toString computerRollIndex2)
            (calculateHMAC e (generateKey e (n + 2)) computerRollIndex2),
                   KeyRevealed (generateKey e (n + 2)) computerRollIndex2,
                   ResultShown computerRollIndex2 userThrow2
                     (js_rem (int (parse_decimal userThrow2) + computerRollIndex2) 6),
                   RollCalled (js_rem (int (parse_decimal userThrow2) + computerRollIndex2) 6),
                   Rolled userDiceRoll]"
                  using c1 t1 r1 c2 Cons t2 r2 by simp
                have res: "fst (playTurns e userDice computerDice n (userThrow1 # answers1)) =
                  Inr (if userDiceRoll > computerRoll then YouWin else ComputerWins)"
                  using c1 t1 r1 c2 Cons t2 r2 by simp
                have "ends_in_comparison (snd (playTurns e userDice computerDice n (userThrow1 # answers1)))
                        computerRoll userDiceRoll"
                  unfolding ev by (rule ends_in_comparison_direct)
                moreover have "out = (if userDiceRoll > computerRoll then YouWin else ComputerWins)"
                  using res "2.prems"(1) by simp
                ultimately show ?thesis by blast
              qed
            qed
          qed
        qed
      qed
    qed
  qed
qed

lemma ends_in_comparison_final_rolls:
  "ends_in_comparison es c u \<Longrightarrow> final_rolls es = Some (c, u)"
  by (auto simp: ends_in_comparison_def final_rolls_def)

lemma final_rolls_last:
  assumes "final_rolls es = Some (c, u)"
  shows "es \<noteq> [] \<and> last es = Rolled u"
proof -
  obtain xs where "rev es = Rolled u # xs"
    using assms unfolding final_rolls_def
    by (cases "rev es") (auto split: list.splits event.splits)
  then have "es = rev xs @ [Rolled u]" by (simp add: rev_swap)
  then show ?thesis by simp
qed

lemma round_open_after: "round_open r \<Longrightarrow> round_open (after es r)"
  by (auto simp: round_open_def)

lemma round_open_stop:
  "round_open (after es (x, [])) = (x = Inr YouWin \<or> x = Inr ComputerWins
      \<or> (es \<noteq> [] \<and> (\<forall>v. last es \<noteq> Rolled v)))"
  by (simp add: round_open_def)

lemma after_after: "after es (after fs r) = after (es @ fs) r"
  by (simp add: after_def)

lemma playTurns_round_open: "round_open (playTurns e userDice computerDice n answers)"
proof (induction e userDice computerDice n answers rule: playTurns.induct)
  case (1 e userDice computerDice n)
  then show ?case by (simp add: generateRandomInteger_6 round_open_def)
next
  case (2 e userDice computerDice n userThrow1 answers1)
  show ?case
  proof (cases "userThrow1 \<in> set throwOptions")
    case False
    then show ?thesis
      using "2.IH"(1) [OF generateRandomInteger_6 False]
      by (simp add: generateRandomInteger_6 after_after round_open_after)
  next
    case t1: True
    show ?thesis
    proof (cases "roll computerDice (js_rem (int (parse_decimal userThrow1)
                    + uint (randomUInt32 e (n + 1)) mod 6) 6)")
      case (Inl err)
      then show ?thesis using t1
        by (simp add: generateRandomInteger_6 after_after round_open_stop)
    next
      case r1: (Inr computerRoll)
      show ?thesis
      proof (cases answers1)
        case Nil
        then show ?thesis using t1 r1
          by (simp add: generateRandomInteger_6 after_after round_open_stop)
      next
        case (Cons userThrow2 answers2)
        show ?thesis
        proof (cases "userThrow2 \<in> set throwOptions")
          case False
          have "round_open (playTurns e userDice computerDice (n + 4) answers2)"
            using "2.IH"(2) [OF generateRandomInteger_6 _ r1 generateRandomInteger_6 Cons False] t1
            by simp
          then show ?thesis using t1 r1 Cons False
            by (simp add: generateRandomInteger_6 after_after round_open_after)
        next
          case t2: True
          show ?thesis
          proof (cases "roll userDice (js_rem (int (parse_decimal userThrow2)
                          + uint (randomUInt32 e (n + 3)) mod 6) 6)")
            case (Inl err)
            then show ?thesis using t1 r1 Cons t2
              by (simp add: generateRandomInteger_6 after_after round_open_stop)
          next
            case (Inr userDiceRoll)
            then show ?thesis using t1 r1 Cons t2
              by (simp add: generateRandomInteger_6 after_after round_open_stop)
          qed
        qed
      qed
    qed
  qed
qed

lemma playTurns_compared:
  assumes "final_rolls (snd (playTurns e userDice computerDice n answers)) = Some (c, u)"
  shows "fst (playTurns e userDice computerDice n answers)
         = Inr (if u > c then YouWin else ComputerWins)"
proof -
  let ?r = "playTurns e userDice computerDice n answers"
  have l: "snd ?r \<noteq> []" "last (snd ?r) = Rolled u"
    using final_rolls_last [OF assms] by simp_all
  have "round_open ?r" by (rule playTurns_round_open)
  then have "fst ?r = Inr YouWin \<or> fst ?r = Inr ComputerWins"
    using l by (auto simp: round_open_def)
  then obtain out where out: "fst ?r = Inr out" "out = YouWin \<or> out = ComputerWins" by blast
  obtain c' u' where cu: "ends_in_comparison (snd ?r) c' u'"
      "out = (if u' > c' then YouWin else ComputerWins)"
    using playTurns_comparison [OF out] by blast
  have "final_rolls (snd ?r) = Some (c', u')"
    using cu(1) by (rule ends_in_comparison_final_rolls)
  with assms have "c' = c" "u' = u" by simp_all
  with out(1) cu(2) show ?thesis by simp
qed

text \<open>
  Claim C3, as stated: equal face values give a draw. They do not: with the faces 3 and 3
  the run ends with 'Computer wins!'.
\<close>

theorem playTurns_tie_computer_wins:
  "fst (playTurns example_env \<lparr>dice_values = [1, 2, 3, 4, 5, 6]\<rparr>
          \<lparr>dice_values = [3, 3, 3, 3, 3, 3]\<rparr> 0 [''1'', ''5'']) = Inr ComputerWins
   \<and> final_rolls (snd (playTurns example_env \<lparr>dice_values = [1, 2, 3, 4, 5, 6]\<rparr>
          \<lparr>dice_values = [3, 3, 3, 3, 3, 3]\<rparr> 0 [''1'', ''5''])) = Some (3, 3)"
  by (simp add: throwOptions_def generateRandomInteger_6 example_env_def
      parse_decimal_def digit_value_def js_rem_nonneg roll_def generateKey_def number_toString_def
      calculateHMAC_def decimal_digit digit_char_def final_rolls_def)

text \<open>
  Claim C3, amended: whenever a run of \<^verbatim>\<open>playTurns\<close> reaches the comparison of the two
  rolled face values, it ends with 'You win!' if the face value of the human is strictly
  greater than that of the computer, and with 'Computer wins!' in every other case, equal
  face values included; a run declares a winner only after such a comparison; and with two
  accepted answers on dice of six faces the comparison is reached, on the faces at the two
  combined indices. There is no draw outcome.
\<close>

theorem playTurns_winner:
  "(\<forall>computerRoll userDiceRoll.
      final_rolls (snd (playTurns e userDice computerDice n answers))
        = Some (computerRoll, userDiceRoll) \<longrightarrow>
      fst (playTurns e userDice computerDice n answers)
        = Inr (if userDiceRoll > computerRoll then YouWin else ComputerWins))
   \<and> (fst (playTurns e userDice computerDice n answers) = Inr YouWin
        \<or> fst (playTurns e userDice computerDice n answers) = Inr ComputerWins \<longrightarrow>
      (\<exists>computerRoll userDiceRoll.
         final_rolls (snd (playTurns e userDice computerDice n answers))
           = Some (computerRoll, userDiceRoll)))
   \<and> (length (dice_values userDice) = 6 \<and> length (dice_values computerDice) = 6
        \<and> userThrow1 \<in> set throwOptions \<and> userThrow2 \<in> set throwOptions \<longrightarrow>
      final_rolls (snd (playTurns e userDice computerDice n (userThrow1 # userThrow2 # rest)))
        = Some (dice_values computerDice !
                  nat (js_rem (int (parse_decimal userThrow1) + uint (randomUInt32 e (n + 1)) mod 6) 6),
                dice_values userDice !
                  nat (js_rem (int (parse_decimal userThrow2) + uint (randomUInt32 e (n + 3)) mod 6) 6)))"
proof (intro conjI allI impI)
  fix computerRoll userDiceRoll
  assume f: "final_rolls (snd (playTurns e userDice computerDice n answers))
      = Some (computerRoll, userDiceRoll)"
  show "fst (playTurns e userDice computerDice n answers)
      = Inr (if userDiceRoll > computerRoll then YouWin else ComputerWins)"
    using f by (rule playTurns_compared)
next
  assume "fst (playTurns e userDice computerDice n answers) = Inr YouWin
      \<or> fst (playTurns e userDice computerDice n answers) = Inr ComputerWins"
  then obtain out where out: "fst (playTurns e userDice computerDice n answers) = Inr out"
      "out = YouWin \<or> out = ComputerWins" by blast
  then obtain c u where "ends_in_comparison (snd (playTurns e userDice computerDice n answers)) c u"
    using playTurns_comparison by blast
  then show "\<exists>computerRoll userDiceRoll.
      final_rolls (snd (playTurns e userDice computerDice n answers)) = Some (computerRoll, userDiceRoll)"
    by (blast dest: ends_in_comparison_final_rolls)
next
  assume a: "length (dice_values userDice) = 6 \<and> length (dice_values computerDice) = 6
      \<and> userThrow1 \<in> set throwOptions \<and> userThrow2 \<in> set throwOptions"
  then show "final_rolls (snd (playTurns e userDice computerDice n (userThrow1 # userThrow2 # rest)))
      = Some (dice_values computerDice !
                nat (js_rem (int (parse_decimal userThrow1) + uint (randomUInt32 e (n + 1)) mod 6) 6),
              dice_values userDice !
                nat (js_rem (int (parse_decimal userThrow2) + uint (randomUInt32 e (n + 3)) mod 6) 6))"
    by (simp add: generateRandomInteger_6 throw_roll final_rolls_def)
qed

theorem playTurns_winner_witness:
  "final_rolls (snd (playTurns example_env \<lparr>dice_values = [3, 1, 4, 1, 5, 9]\<rparr>
          \<lparr>dice_values = [2, 7, 1, 8, 2, 8]\<rparr> 0 [''0'', ''1''])) = Some (7, 5)
   \<and> fst (playTurns example_env \<lparr>dice_values = [3, 1, 4, 1, 5, 9]\<rparr>
          \<lparr>dice_values = [2, 7, 1, 8, 2, 8]\<rparr> 0 [''0'', ''1'']) = Inr ComputerWins
   \<and> final_rolls (snd (playTurns example_env \<lparr>dice_values = [3, 1, 4, 1, 5, 9]\<rparr>
          \<lparr>dice_values = [2, 7, 1, 8, 2, 8]\<rparr> 0 [''3'', ''2''])) = Some (2, 9)
   \<and> fst (playTurns example_env \<lparr>dice_values = [3, 1, 4, 1, 5, 9]\<rparr>
          \<lparr>dice_values = [2, 7, 1, 8, 2, 8]\<rparr> 0 [''3'', ''2'']) = Inr YouWin
   \<and> final_rolls (snd (playTurns example_env \<lparr>dice_values = [3, 1, 4, 1, 5, 9]\<rparr>
          \<lparr>dice_values = [2, 7, 1, 8, 2, 8]\<rparr> 0 [''1'', ''4''])) = Some (1, 1)
   \<and> fst (playTurns example_env \<lparr>dice_values = [3, 1, 4, 1, 5, 9]\<rparr>
          \<lparr>dice_values = [2, 7, 1, 8, 2, 8]\<rparr> 0 [''1'', ''4'']) = Inr ComputerWins"
proof -
  let ?u = "\<lparr>dice_values = [3, 1, 4, 1, 5, 9]\<rparr>" and ?c = "\<lparr>dice_values = [2, 7, 1, 8, 2, 8]\<rparr>"
  have opts: "''0'' \<in> set throwOptions" "''1'' \<in> set throwOptions" "''2'' \<in> set throwOptions"
    "''3'' \<in> set throwOptions" "''4'' \<in> set throwOptions" "''5'' \<in> set throwOptions"
    by (simp_all add: throwOptions_def)
  have a: "final_rolls (snd (playTurns example_env ?u ?c 0 [''0'', ''1''])) = Some (7, 5)"
    using playTurns_winner [of example_env ?u ?c 0 "[''0'', ''1'']" "''0''" "''1''" "[]"] opts
    by (simp add: example_env_def parse_decimal_def digit_value_def js_rem_nonneg
        del: playTurns.simps)
  have b: "final_rolls (snd (playTurns example_env ?u ?c 0 [''3'', ''2''])) = Some (2, 9)"
    using playTurns_winner [of example_env ?u ?c 0 "[''3'', ''2'']" "''3''" "''2''" "[]"] opts
    by (simp add: example_env_def parse_decimal_def digit_value_def js_rem_nonneg
        del: playTurns.simps)
  have c: "final_rolls (snd (playTurns example_env ?u ?c 0 [''1'', ''4''])) = Some (1, 1)"
    using playTurns_winner [of example_env ?u ?c 0 "[''1'', ''4'']" "''1''" "''4''" "[]"] opts
    by (simp add: example_env_def parse_decimal_def digit_value_def js_rem_nonneg
        del: playTurns.simps)
  have a': "fst (playTurns example_env ?u ?c 0 [''0'', ''1'']) = Inr ComputerWins"
    using playTurns_winner [THEN conjunct1, rule_format, OF a] by (simp del: playTurns.simps)
  have b': "fst (playTurns example_env ?u ?c 0 [''3'', ''2'']) = Inr YouWin"
    using playTurns_winner [THEN conjunct1, rule_format, OF b] by (simp del: playTurns.simps)
  have c': "fst (playTurns example_env ?u ?c 0 [''1'', ''4'']) = Inr ComputerWins"
    using playTurns_winner [THEN conjunct1, rule_format, OF c] by (simp del: playTurns.simps)
  show ?thesis using a a' b b' c c' by (simp del: playTurns.simps)
qed

subsection \<open>Commitments\<close>









subsection \<open>The exit option\<close>

text \<open>
  Claim C9: the answer \<^verbatim>\<open>X\<close>, which the prompt of a throw offers as 'exit', is handled as
  an invalid answer: \<^verbatim>\<open>playTurns\<close> starts again with a new commitment and
  \<^verbatim>\<open>selectDice\<close> reads the next answer.
\<close>

theorem exit_input_reprompts:
  "playTurns e userDice computerDice n (''X'' # answers) =
     after [HmacCalled (generateKey e n) (number_toString (uint (randomUInt32 e (n + 1)) mod 6))
              (calculateHMAC e (generateKey e n) (uint (randomUInt32 e (n + 1)) mod 6)),
            InvalidInput]
       (playTurns e userDice computerDice (n + 2) answers)
   \<and> selectDice this (''X'' # answers) = selectDice this answers"
  by (simp add: generateRandomInteger_6 throwOptions_def after_def positiveInteger_def)

theorem exit_input_reprompts_witness:
  "playTurns example_env \<lparr>dice_values = [2, 2, 4, 4, 9, 9]\<rparr>
     \<lparr>dice_values = [6, 8, 1, 1, 8, 6]\<rparr> 0 [''X''] =
     (Inr AwaitingInput, [HmacCalled ''4b1d'' ''1'' ''4b1d1'', InvalidInput, HmacCalled ''4b1d'' ''3'' ''4b1d3''])
   \<and> selectDice \<lparr>diceArray = example_dice, difficulty = Str ''easy''\<rparr> [''X'', ''2''] = Some (1, [])"
  using exit_input_reprompts [of example_env "\<lparr>dice_values = [2, 2, 4, 4, 9, 9]\<rparr>"
      "\<lparr>dice_values = [6, 8, 1, 1, 8, 6]\<rparr>" 0 "[]"
      "\<lparr>diceArray = example_dice, difficulty = Str ''easy''\<rparr>"]
     exit_input_reprompts [of example_env "\<lparr>dice_values = [2, 2, 4, 4, 9, 9]\<rparr>"
      "\<lparr>dice_values = [6, 8, 1, 1, 8, 6]\<rparr>" 0 "[''2'']"
      "\<lparr>diceArray = example_dice, difficulty = Str ''easy''\<rparr>"]
  by (simp add: generateRandomInteger_6 example_env_def generateKey_def number_toString_def
      calculateHMAC_def decimal_digit digit_char_def after_def positiveInteger_def is_digit_def
      parse_decimal_def digit_value_def example_dice_def)

subsection \<open>The probability matrix\<close>

lemma for_each_pure:
  "(\<And>i s. i \<in> set xs \<Longrightarrow> body i s = Inr (f i s)) \<Longrightarrow> for_each xs body s = Inr (fold f xs s)"
  by (induction xs arbitrary: s) simp_all

lemma fold_count:
  "fold (\<lambda>y count. if P y then count + 1 else count) ys (c :: nat) = c + length (filter P ys)"
  by (induction ys arbitrary: c) simp_all

lemma fold_count_rows:
  "fold (\<lambda>x (c :: nat). c + length (filter (P x) ys)) xs c
     = c + length (filter (\<lambda>(x, y). P x y) (List.product xs ys))"
  by (induction xs arbitrary: c) (simp_all add: filter_map o_def)

lemma card_pairs:
  "card {(x, y). x < (a :: nat) \<and> y < (b :: nat) \<and> P x y}
     = length (filter (\<lambda>(x, y). P x y) (List.product [0..<a] [0..<b]))"
proof -
  have "{(x, y). x < a \<and> y < b \<and> P x y} = set (filter (\<lambda>(x, y). P x y) (List.product [0..<a] [0..<b]))"
    by auto
  moreover have "distinct (filter (\<lambda>(x, y). P x y) (List.product [0..<a] [0..<b]))"
    by (simp add: distinct_product)
  ultimately show ?thesis by (simp only: distinct_card)
qed

lemma roll_face:
  "length (dice_values d) = 6 \<Longrightarrow> x < 6 \<Longrightarrow> roll d (int x) = Inr (dice_values d ! x)"
  by (simp add: roll_def)

lemma winCount_six:
  assumes "length (dice_values di) = 6" "length (dice_values dj) = 6"
  shows "winCount di dj = Inr (pairs_won di dj)"
proof -
  have inner: "for_each [0..<6] (\<lambda>y count.
       case roll di (int x) of Inl e \<Rightarrow> Inl e | Inr a \<Rightarrow>
       (case roll dj (int y) of Inl e \<Rightarrow> Inl e | Inr b \<Rightarrow>
          Inr (if a > b then count + 1 else count))) c
     = Inr (c + length (filter (\<lambda>y. dice_values di ! x > dice_values dj ! y) [0..<6]))"
    if "x < 6" for x and c :: nat
  proof -
    have "for_each [0..<6] (\<lambda>y count.
       case roll di (int x) of Inl e \<Rightarrow> Inl e | Inr a \<Rightarrow>
       (case roll dj (int y) of Inl e \<Rightarrow> Inl e | Inr b \<Rightarrow>
          Inr (if a > b then count + 1 else count))) c
      = Inr (fold (\<lambda>y count. if dice_values di ! x > dice_values dj ! y then count + 1 else count) [0..<6] c)"
      by (rule for_each_pure) (use assms that in \<open>simp add: roll_face\<close>)
    then show ?thesis by (simp only: fold_count)
  qed
  have "winCount di dj
      = Inr (fold (\<lambda>x c. c + length (filter (\<lambda>y. dice_values di ! x > dice_values dj ! y) [0..<6])) [0..<6] 0)"
    unfolding winCount_def by (rule for_each_pure) (simp add: inner)
  also have "\<dots> = Inr (length (filter (\<lambda>(x, y). dice_values di ! x > dice_values dj ! y)
                      (List.product [0..<6] [0..<6])))"
    by (simp only: fold_count_rows) simp
  also have "\<dots> = Inr (pairs_won di dj)"
    unfolding pairs_won_def by (simp only: card_pairs)
  finally show ?thesis .
qed

lemma pairs_won_le: "pairs_won di dj \<le> 36"
proof -
  have "pairs_won di dj = length (filter (\<lambda>(x, y). dice_values di ! x > dice_values dj ! y)
                      (List.product [0..<6] [0..<6]))"
    unfolding pairs_won_def by (simp only: card_pairs)
  also have "\<dots> \<le> length (List.product [0..<6] [0..<6 :: nat])"
    by (rule length_filter_le)
  finally show ?thesis by simp
qed

lemma row_loop:
  fixes v :: "nat \<Rightarrow> nat \<Rightarrow> 'a" and i :: nat
  defines "g \<equiv> \<lambda>j P. if i = j then P else P[i := (P ! i)[j := v i j]]"
  assumes "i < length P" "m \<le> length (P ! i)"
  shows "length (fold g [0..<m] P) = length P
       \<and> (\<forall>r < length P. length (fold g [0..<m] P ! r) = length (P ! r))
       \<and> (\<forall>r < length P. \<forall>c < length (P ! r).
            fold g [0..<m] P ! r ! c = (if r = i \<and> c < m \<and> c \<noteq> i then v i c else P ! r ! c))"
  using assms(3)
proof (induction m)
  case 0
  then show ?case by simp
next
  case (Suc m)
  let ?Q = "fold g [0..<m] P"
  have IH: "length ?Q = length P" "\<forall>r < length P. length (?Q ! r) = length (P ! r)"
    "\<forall>r < length P. \<forall>c < length (P ! r).
        ?Q ! r ! c = (if r = i \<and> c < m \<and> c \<noteq> i then v i c else P ! r ! c)"
    using Suc by simp_all
  have step: "fold g [0..<Suc m] P = g m ?Q" by simp
  have m: "m < length (P ! i)" using Suc.prems by simp
  show ?case
  proof (cases "i = m")
    case True
    then have "g m ?Q = ?Q" by (simp add: g_def)
    with IH True show ?thesis unfolding step by (auto simp: less_Suc_eq)
  next
    case False
    then have gm: "g m ?Q = ?Q[i := (?Q ! i)[m := v i m]]" by (simp add: g_def)
    show ?thesis
      unfolding step gm using IH assms(2) m False
      by (auto simp: nth_list_update less_Suc_eq)
  qed
qed

lemma matrix_loop:
  fixes v :: "nat \<Rightarrow> nat \<Rightarrow> 'a"
  defines "g \<equiv> \<lambda>i j P. if i = j then P else P[i := (P ! i)[j := v i j]]"
  assumes "\<forall>r < length P. length (P ! r) = n" "m \<le> length P"
  shows "length (fold (\<lambda>i. fold (g i) [0..<n]) [0..<m] P) = length P
       \<and> (\<forall>r < length P. length (fold (\<lambda>i. fold (g i) [0..<n]) [0..<m] P ! r) = n)
       \<and> (\<forall>r < length P. \<forall>c < n.
            fold (\<lambda>i. fold (g i) [0..<n]) [0..<m] P ! r ! c
              = (if r < m \<and> c \<noteq> r then v r c else P ! r ! c))"
  using assms(3)
proof (induction m)
  case 0
  then show ?case using assms(2) by simp
next
  case (Suc m)
  let ?Q = "fold (\<lambda>i. fold (g i) [0..<n]) [0..<m] P"
  have IH: "length ?Q = length P" "\<forall>r < length P. length (?Q ! r) = n"
    "\<forall>r < length P. \<forall>c < n. ?Q ! r ! c = (if r < m \<and> c \<noteq> r then v r c else P ! r ! c)"
    using Suc by simp_all
  have m: "m < length ?Q" "n \<le> length (?Q ! m)" using Suc.prems IH by simp_all
  have step: "fold (\<lambda>i. fold (g i) [0..<n]) [0..<Suc m] P = fold (g m) [0..<n] ?Q" by simp
  have row: "length (fold (g m) [0..<n] ?Q) = length ?Q
       \<and> (\<forall>r < length ?Q. length (fold (g m) [0..<n] ?Q ! r) = length (?Q ! r))
       \<and> (\<forall>r < length ?Q. \<forall>c < length (?Q ! r).
            fold (g m) [0..<n] ?Q ! r ! c = (if r = m \<and> c < n \<and> c \<noteq> m then v m c else ?Q ! r ! c))"
    unfolding g_def using row_loop [where v = v and i = m and P = "?Q" and m = n] m by (simp add: g_def)
  show ?case
    unfolding step using row IH by (auto simp: less_Suc_eq)
qed

lemma digits_identity:
  "(n :: nat) = 10000 * (n div 10000) + 1000 * (n div 1000 mod 10) + 100 * (n div 100 mod 10)
       + 10 * (n div 10 mod 10) + n mod 10"
proof -
  have a: "n = 10 * (n div 10) + n mod 10" by simp
  have b: "n div 10 = 10 * (n div 10 div 10) + n div 10 mod 10"
    by (simp only: mult_div_mod_eq)
  have c: "n div 100 = 10 * (n div 100 div 10) + n div 100 mod 10"
    by (simp only: mult_div_mod_eq)
  have d: "n div 1000 = 10 * (n div 1000 div 10) + n div 1000 mod 10"
    by (simp only: mult_div_mod_eq)
  have e: "n div 10 div 10 = n div 100" "n div 100 div 10 = n div 1000"
    "n div 1000 div 10 = n div 10000"
    by (simp_all add: div_mult2_eq)
  show ?thesis using a b c d unfolding e by linarith
qed

lemma round_36:
  "nat \<lfloor>\<bar>of_nat k / 36 :: rat\<bar> * 10 ^ 4 + 1 / 2\<rfloor> = (k * 10000 + 18) div 36"
proof -
  have "\<bar>of_nat k / 36 :: rat\<bar> * 10 ^ 4 + 1 / 2 = of_nat (k * 10000 + 18) / of_nat 36"
    by simp
  then have "\<lfloor>\<bar>of_nat k / 36 :: rat\<bar> * 10 ^ 4 + 1 / 2\<rfloor> = int ((k * 10000 + 18) div 36)"
    by (simp only: floor_divide_of_nat_eq)
  then show ?thesis by simp
qed

lemma digit_code: "x < 10 \<Longrightarrow> of_char (digit_char x) = 48 + x"
proof -
  assume "x < 10"
  then have "x = 0 \<or> x = 1 \<or> x = 2 \<or> x = 3 \<or> x = 4 \<or> x = 5 \<or> x = 6 \<or> x = 7 \<or> x = 8 \<or> x = 9"
    by arith
  then show ?thesis by (auto simp: digit_char_def)
qed

lemma digit_char_eq: "x < 10 \<Longrightarrow> y < 10 \<Longrightarrow> (digit_char x = digit_char y) = (x = y)"
proof
  assume "x < 10" "y < 10" "digit_char x = digit_char y"
  then have "(of_char (digit_char x) :: nat) = of_char (digit_char y)" by simp
  with \<open>x < 10\<close> \<open>y < 10\<close> show "x = y" by (simp add: digit_code)
qed simp

lemma decimal_step: "10 \<le> n \<Longrightarrow> decimal n = decimal (n div 10) @ [digit_char (n mod 10)]"
  by (subst decimal.simps) simp

lemma replicate_small:
  "replicate 4 c = [c, c, c, c]" "replicate 3 c = [c, c, c]" "replicate 2 c = [c, c]"
  by (simp_all add: eval_nat_numeral)

lemma decimal_pad5:
  assumes "n < 100000"
  shows "(if length (decimal n) \<le> 4 then replicate (4 + 1 - length (decimal n)) CHR ''0'' @ decimal n
          else decimal n)
         = [digit_char (n div 10000), digit_char (n div 1000 mod 10),
            digit_char (n div 100 mod 10), digit_char (n div 10 mod 10), digit_char (n mod 10)]"
proof -
  have z: "digit_char 0 = CHR ''0''" by (simp add: digit_char_def)
  consider "n < 10" | "10 \<le> n" "n < 100" | "100 \<le> n" "n < 1000"
    | "1000 \<le> n" "n < 10000" | "10000 \<le> n"
    by linarith
  then show ?thesis
  proof cases
    case 1
    then have "decimal n = [digit_char n]" by (simp add: decimal_digit)
    with 1 show ?thesis by (simp add: z replicate_small)
  next
    case 2
    then have d1: "n div 10 < 10" by simp
    have "decimal n = [digit_char (n div 10), digit_char (n mod 10)]"
      using 2 d1 by (simp add: decimal_step decimal_digit)
    with 2 d1 show ?thesis by (simp add: z replicate_small)
  next
    case 3
    then have d1: "10 \<le> n div 10" "n div 100 < 10" by simp_all
    have e: "n div 10 div 10 = n div 100" by (simp add: div_mult2_eq)
    have "decimal n = [digit_char (n div 100), digit_char (n div 10 mod 10), digit_char (n mod 10)]"
      using 3 d1 by (simp add: decimal_step decimal_digit e)
    with 3 d1 show ?thesis by (simp add: z replicate_small)
  next
    case 4
    then have d1: "10 \<le> n div 10" "10 \<le> n div 100" "n div 1000 < 10" by simp_all
    have e: "n div 10 div 10 = n div 100" "n div 100 div 10 = n div 1000"
      by (simp_all add: div_mult2_eq)
    have "decimal n = [digit_char (n div 1000), digit_char (n div 100 mod 10),
                       digit_char (n div 10 mod 10), digit_char (n mod 10)]"
      using 4 d1 by (simp add: decimal_step decimal_digit e)
    with 4 d1 show ?thesis by (simp add: z replicate_small)
  next
    case 5
    then have d1: "10 \<le> n div 10" "10 \<le> n div 100" "10 \<le> n div 1000" "n div 10000 < 10"
      using assms by simp_all
    have e: "n div 10 div 10 = n div 100" "n div 100 div 10 = n div 1000"
      "n div 1000 div 10 = n div 10000"
      by (simp_all add: div_mult2_eq)
    have "decimal n = [digit_char (n div 10000), digit_char (n div 1000 mod 10),
                       digit_char (n div 100 mod 10), digit_char (n div 10 mod 10), digit_char (n mod 10)]"
      using 5 d1 by (simp add: decimal_step decimal_digit e)
    then show ?thesis by simp
  qed
qed

lemma toFixed_36:
  assumes "k \<le> 36"
  shows "toFixed (of_nat k / 36) 4 = fixed4 ((k * 10000 + 18) div 36)"
proof -
  let ?n = "(k * 10000 + 18) div 36"
  have n: "?n < 100000" using assms by simp
  have nonneg: "\<not> (of_nat k / 36 :: rat) < 0" by simp
  let ?m = "decimal ?n"
  let ?m' = "if length ?m \<le> 4 then replicate (4 + 1 - length ?m) CHR ''0'' @ ?m else ?m"
  have m': "?m' = [digit_char (?n div 10000), digit_char (?n div 1000 mod 10),
            digit_char (?n div 100 mod 10), digit_char (?n div 10 mod 10), digit_char (?n mod 10)]"
    using n by (rule decimal_pad5)
  have "toFixed (of_nat k / 36) 4 = take (length ?m' - 4) ?m' @ ''.'' @ drop (length ?m' - 4) ?m'"
    unfolding toFixed_def Let_def round_36 using nonneg by simp
  also have "\<dots> = fixed4 ?n"
    unfolding m' by (simp add: fixed4_def)
  finally show ?thesis .
qed

lemma str_less_digit:
  "x < 10 \<Longrightarrow> y < 10 \<Longrightarrow>
   str_less (digit_char x # xs) (digit_char y # ys) = (if x = y then str_less xs ys else x < y)"
  by (simp add: digit_char_eq digit_code)

lemma lex_step:
  fixes a b x y B :: nat
  assumes "x < B" "y < B"
  shows "(if a = b then x < y else a < b) = (B * a + x < B * b + y)"
proof -
  consider "a = b" | "a < b" | "b < a" by linarith
  then show ?thesis
  proof cases
    case 1
    then show ?thesis by simp
  next
    case 2
    then have "B * Suc a \<le> B * b" by (simp only: Suc_le_eq mult_le_mono2)
    then have "B * a + x < B * b + y" using assms by simp
    with 2 show ?thesis by simp
  next
    case 3
    then have "B * Suc b \<le> B * a" by (simp only: Suc_le_eq mult_le_mono2)
    then have "\<not> B * a + x < B * b + y" using assms by simp
    with 3 show ?thesis by simp
  qed
qed

lemma lex_digits:
  fixes a4 a3 a2 a1 a0 b4 b3 b2 b1 b0 :: nat
  assumes "a3 < 10" "a2 < 10" "a1 < 10" "a0 < 10" "b3 < 10" "b2 < 10" "b1 < 10" "b0 < 10"
  shows "(if a4 = b4 then if a3 = b3 then if a2 = b2 then if a1 = b1 then a0 < b0 else a1 < b1
              else a2 < b2 else a3 < b3 else a4 < b4)
         = (10000 * a4 + 1000 * a3 + 100 * a2 + 10 * a1 + a0
              < 10000 * b4 + 1000 * b3 + 100 * b2 + 10 * b1 + b0)"
proof -
  have s1: "(if a1 = b1 then a0 < b0 else a1 < b1) = (10 * a1 + a0 < 10 * b1 + b0)"
    using assms by (intro lex_step)
  have s2: "(if a2 = b2 then 10 * a1 + a0 < 10 * b1 + b0 else a2 < b2)
      = (100 * a2 + (10 * a1 + a0) < 100 * b2 + (10 * b1 + b0))"
    using assms by (intro lex_step) linarith+
  have s3: "(if a3 = b3 then 100 * a2 + (10 * a1 + a0) < 100 * b2 + (10 * b1 + b0) else a3 < b3)
      = (1000 * a3 + (100 * a2 + (10 * a1 + a0)) < 1000 * b3 + (100 * b2 + (10 * b1 + b0)))"
    using assms by (intro lex_step) linarith+
  have s4: "(if a4 = b4
             then 1000 * a3 + (100 * a2 + (10 * a1 + a0)) < 1000 * b3 + (100 * b2 + (10 * b1 + b0))
             else a4 < b4)
      = (10000 * a4 + (1000 * a3 + (100 * a2 + (10 * a1 + a0)))
           < 10000 * b4 + (1000 * b3 + (100 * b2 + (10 * b1 + b0))))"
    using assms by (intro lex_step) linarith+
  show ?thesis
    unfolding s1 s2 s3 s4 by (simp only: add.assoc)
qed

lemma str_less_digits1:
  "x < 10 \<Longrightarrow> y < 10 \<Longrightarrow> str_less [digit_char x] [digit_char y] = (x < y)"
  by (simp add: digit_char_eq digit_code)

lemma if_eq_less: "(if (x :: nat) = y then False else x < y) = (x < y)"
  by simp

lemma str_less_same: "str_less (c # xs) (c # ys) = str_less xs ys"
  by simp

lemma str_less_fixed4:
  assumes "a < 100000" "b < 100000"
  shows "str_less (fixed4 a) (fixed4 b) = (a < b)"
proof -
  have da: "a div 10000 < 10" and db: "b div 10000 < 10" using assms by simp_all
  have m: "\<And>n :: nat. n mod 10 < 10" by simp
  have "str_less (fixed4 a) (fixed4 b)
      = (if a div 10000 = b div 10000 then
           if a div 1000 mod 10 = b div 1000 mod 10 then
             if a div 100 mod 10 = b div 100 mod 10 then
               if a div 10 mod 10 = b div 10 mod 10 then a mod 10 < b mod 10
               else a div 10 mod 10 < b div 10 mod 10
             else a div 100 mod 10 < b div 100 mod 10
           else a div 1000 mod 10 < b div 1000 mod 10
         else a div 10000 < b div 10000)"
    unfolding fixed4_def
    by (simp only: str_less_digit [OF da db] str_less_same str_less_digit [OF m m]
        str_less.simps(1) if_eq_less)
  also have "\<dots> = (10000 * (a div 10000) + 1000 * (a div 1000 mod 10) + 100 * (a div 100 mod 10)
                      + 10 * (a div 10 mod 10) + a mod 10
                   < 10000 * (b div 10000) + 1000 * (b div 1000 mod 10) + 100 * (b div 100 mod 10)
                      + 10 * (b div 10 mod 10) + b mod 10)"
    by (rule lex_digits) (rule m)+
  also have "\<dots> = (a < b)"
    by (simp only: digits_identity [of a, symmetric] digits_identity [of b, symmetric])
  finally show ?thesis .
qed

lemma is_digit_digit_char: "x < 10 \<Longrightarrow> is_digit (digit_char x)"
  unfolding is_digit_def digit_char_def by (rule nth_mem) simp

lemma digit_value_digit_char: "x < 10 \<Longrightarrow> digit_value (digit_char x) = x"
  by (simp add: digit_value_def digit_code)

lemma string_to_number_digits:
  assumes "a4 < 10" "a3 < 10" "a2 < 10" "a1 < 10" "a0 < 10"
  shows "string_to_number [digit_char a4, CHR ''.'', digit_char a3, digit_char a2,
                           digit_char a1, digit_char a0]
         = Some (of_nat (10000 * a4 + 1000 * a3 + 100 * a2 + 10 * a1 + a0) / 10000)"
proof -
  have dot: "\<not> is_digit CHR ''.''" by (simp add: is_digit_def)
  have ip: "parse_decimal [digit_char a4] = a4"
    using assms by (simp add: parse_decimal_def digit_value_digit_char)
  have fp: "parse_decimal [digit_char a3, digit_char a2, digit_char a1, digit_char a0]
      = 1000 * a3 + 100 * a2 + 10 * a1 + a0"
    using assms by (simp add: parse_decimal_def digit_value_digit_char)
  have "string_to_number [digit_char a4, CHR ''.'', digit_char a3, digit_char a2,
                           digit_char a1, digit_char a0]
      = Some (of_nat a4 + of_nat (1000 * a3 + 100 * a2 + 10 * a1 + a0) / 10 ^ 4)"
    unfolding string_to_number_def Let_def
    using assms by (simp add: is_digit_digit_char dot ip fp del: of_nat_add of_nat_mult)
  also have "\<dots> = Some (of_nat (10000 * a4 + 1000 * a3 + 100 * a2 + 10 * a1 + a0) / 10000)"
    by (simp add: field_simps)
  finally show ?thesis .
qed

lemma string_to_number_fixed4:
  assumes "n < 100000"
  shows "string_to_number (fixed4 n) = Some (of_nat n / 10000)"
proof -
  have d4: "n div 10000 < 10" using assms by simp
  have m: "\<And>k :: nat. k mod 10 < 10" by simp
  have "string_to_number (fixed4 n)
      = Some (of_nat (10000 * (n div 10000) + 1000 * (n div 1000 mod 10)
                           + 100 * (n div 100 mod 10) + 10 * (n div 10 mod 10) + n mod 10) / 10000)"
    unfolding fixed4_def by (rule string_to_number_digits [OF d4 m m m m])
  also have "\<dots> = Some (of_nat n / 10000)"
    by (simp only: digits_identity [of n, symmetric])
  finally show ?thesis .
qed

lemma js_greater_fixed4:
  assumes "a < 100000" "b < 100000"
  shows "js_greater (Str (fixed4 a)) (Str (fixed4 b)) = (b < a)"
  using assms by (simp add: str_less_fixed4)

lemma js_greater_fixed4_initial:
  assumes "a < 100000"
  shows "js_greater (Str (fixed4 a)) (Num (- 1))"
  using assms by (simp add: string_to_number_fixed4)

lemma round_36_mono:
  fixes k1 k2 :: nat
  shows "((k1 * 10000 + 18) div 36 < (k2 * 10000 + 18) div 36) = (k1 < k2)"
proof (cases "k1 < k2")
  case True
  then have "(k1 * 10000 + 18) + 36 \<le> k2 * 10000 + 18" by simp
  then have "((k1 * 10000 + 18) + 36) div 36 \<le> (k2 * 10000 + 18) div 36"
    by (rule div_le_mono)
  moreover have "((k1 * 10000 + 18) + 36) div 36 = (k1 * 10000 + 18) div 36 + 1"
    by simp
  ultimately show ?thesis using True by simp
next
  case False
  then have "k2 * 10000 + 18 \<le> k1 * 10000 + 18" by simp
  then have "(k2 * 10000 + 18) div 36 \<le> (k1 * 10000 + 18) div 36"
    by (rule div_le_mono)
  then show ?thesis using False by simp
qed

lemma six_faces_nth: "six_faces ds \<Longrightarrow> i < length ds \<Longrightarrow> length (dice_values (ds ! i)) = 6"
  by (simp add: six_faces_def list_all_length)

lemma calculateProbabilities_fold:
  assumes "six_faces ds"
  shows "calculateProbabilities ds =
     Inr (fold (\<lambda>i. fold (\<lambda>j P. if i = j then P
                 else P[i := (P ! i)[j := Str (toFixed (of_nat (pairs_won (ds ! i) (ds ! j)) / 36) 4)]])
               [0..<length ds])
            [0..<length ds] (replicate (length ds) (replicate (length ds) (Num 0))))"
  unfolding calculateProbabilities_def
proof (rule for_each_pure)
  fix i :: nat and s :: "jsval list list"
  assume "i \<in> set [0..<length ds]"
  then have i: "i < length ds" by simp
  show "for_each [0..<length ds] (\<lambda>j probabilities.
       if i = j then Inr probabilities
       else case winCount (ds ! i) (ds ! j) of Inl e \<Rightarrow> Inl e | Inr c \<Rightarrow>
         Inr (probabilities[i := (probabilities ! i)[j := Str (toFixed (of_nat c / 36) 4)]])) s
     = Inr (fold (\<lambda>j P. if i = j then P
                 else P[i := (P ! i)[j := Str (toFixed (of_nat (pairs_won (ds ! i) (ds ! j)) / 36) 4)]])
               [0..<length ds] s)"
  proof (rule for_each_pure)
    fix j :: nat and P :: "jsval list list"
    assume "j \<in> set [0..<length ds]"
    then have j: "j < length ds" by simp
    have "winCount (ds ! i) (ds ! j) = Inr (pairs_won (ds ! i) (ds ! j))"
      using assms i j by (intro winCount_six six_faces_nth)
    then show "(if i = j then Inr P
       else case winCount (ds ! i) (ds ! j) of Inl e \<Rightarrow> Inl e | Inr c \<Rightarrow>
         Inr (P[i := (P ! i)[j := Str (toFixed (of_nat c / 36) 4)]]))
      = Inr (if i = j then P
                 else P[i := (P ! i)[j := Str (toFixed (of_nat (pairs_won (ds ! i) (ds ! j)) / 36) 4)]])"
      by simp
  qed
qed

lemma calculateProbabilities_entries:
  assumes "six_faces ds"
  shows "\<exists>P. calculateProbabilities ds = Inr P \<and> length P = length ds
           \<and> (\<forall>r < length ds. length (P ! r) = length ds)
           \<and> (\<forall>i < length ds. \<forall>j < length ds.
                 P ! i ! j = (if i = j then Num 0
                              else Str (toFixed (of_nat (pairs_won (ds ! i) (ds ! j)) / 36) 4)))"
proof -
  let ?n = "length ds"
  let ?Z = "replicate ?n (replicate ?n (Num 0))"
  let ?v = "\<lambda>i j. Str (toFixed (of_nat (pairs_won (ds ! i) (ds ! j)) / 36) 4)"
  let ?P = "fold (\<lambda>i. fold (\<lambda>j P. if i = j then P else P[i := (P ! i)[j := ?v i j]]) [0..<?n])
              [0..<?n] ?Z"
  have loop: "length ?P = length ?Z
       \<and> (\<forall>r < length ?Z. length (?P ! r) = ?n)
       \<and> (\<forall>r < length ?Z. \<forall>c < ?n. ?P ! r ! c = (if r < ?n \<and> c \<noteq> r then ?v r c else ?Z ! r ! c))"
    by (rule matrix_loop [where v = ?v and P = ?Z and n = ?n and m = ?n]) simp_all
  have "calculateProbabilities ds = Inr ?P"
    using assms by (rule calculateProbabilities_fold)
  moreover have "length ?P = ?n" using loop by simp
  moreover have "\<forall>r < ?n. length (?P ! r) = ?n" using loop by simp
  moreover have "\<forall>i < ?n. \<forall>j < ?n. ?P ! i ! j = (if i = j then Num 0 else ?v i j)"
    using loop by auto
  ultimately show ?thesis by blast
qed

lemma card_trichotomy:
  fixes f g :: "'a \<Rightarrow> int"
  assumes "finite A"
  shows "card {p \<in> A. f p > g p} + card {p \<in> A. f p < g p} + card {p \<in> A. f p = g p} = card A"
proof -
  have "card {p \<in> A. f p > g p} + card {p \<in> A. f p < g p}
      = card ({p \<in> A. f p > g p} \<union> {p \<in> A. f p < g p})"
    using assms by (subst card_Un_disjoint) auto
  also have "{p \<in> A. f p > g p} \<union> {p \<in> A. f p < g p} = {p \<in> A. f p \<noteq> g p}"
    by auto
  finally have "card {p \<in> A. f p > g p} + card {p \<in> A. f p < g p} + card {p \<in> A. f p = g p}
      = card ({p \<in> A. f p \<noteq> g p} \<union> {p \<in> A. f p = g p})"
    using assms by (subst card_Un_disjoint) auto
  also have "{p \<in> A. f p \<noteq> g p} \<union> {p \<in> A. f p = g p} = A" by auto
  finally show ?thesis .
qed

lemma pairs_as_subset:
  "{(x, y). x < (6 :: nat) \<and> y < (6 :: nat) \<and> P x y} = {p \<in> {..<6} \<times> {..<6}. P (fst p) (snd p)}"
  by auto

lemma card_swap:
  "card {(x, y). x < (6 :: nat) \<and> y < (6 :: nat) \<and> P y x} = card {(x, y). x < (6 :: nat) \<and> y < (6 :: nat) \<and> P x y}"
proof -
  have "{(x, y). x < (6 :: nat) \<and> y < (6 :: nat) \<and> P y x}
      = prod.swap ` {(x, y). x < (6 :: nat) \<and> y < (6 :: nat) \<and> P x y}"
    by (auto simp: image_iff)
  then show ?thesis by (simp add: card_image)
qed

lemma pairs_partition: "pairs_won di dj + pairs_won dj di + pairs_tied di dj = 36"
proof -
  let ?A = "{..<6 :: nat} \<times> {..<6 :: nat}"
  let ?f = "\<lambda>p :: nat \<times> nat. dice_values di ! fst p"
  let ?g = "\<lambda>p :: nat \<times> nat. dice_values dj ! snd p"
  have w: "pairs_won di dj = card {p \<in> ?A. ?f p > ?g p}"
    unfolding pairs_won_def by (simp only: pairs_as_subset)
  have t: "pairs_tied di dj = card {p \<in> ?A. ?f p = ?g p}"
    unfolding pairs_tied_def by (simp only: pairs_as_subset)
  have "pairs_won dj di
      = card {(x, y). x < (6 :: nat) \<and> y < (6 :: nat) \<and> dice_values di ! x < dice_values dj ! y}"
    unfolding pairs_won_def
    by (rule card_swap [where P = "\<lambda>x y. dice_values di ! x < dice_values dj ! y"])
  then have l: "pairs_won dj di = card {p \<in> ?A. ?f p < ?g p}"
    by (simp only: pairs_as_subset)
  have "card {p \<in> ?A. ?f p > ?g p} + card {p \<in> ?A. ?f p < ?g p} + card {p \<in> ?A. ?f p = ?g p}
      = card ?A"
    by (rule card_trichotomy) simp
  then show ?thesis unfolding w t l by simp
qed

lemma round_36_close:
  "\<bar>(of_nat ((k * 10000 + 18) div 36) :: rat) / 10000 - of_nat k / 36\<bar> \<le> 1 / 20000"
proof -
  define n where "n = (k * 10000 + 18) div 36"
  have lo: "36 * n \<le> k * 10000 + 18" unfolding n_def by simp
  have "k * 10000 + 18 = 36 * n + (k * 10000 + 18) mod 36" unfolding n_def by simp
  moreover have "(k * 10000 + 18) mod 36 < 36" by simp
  ultimately have hi: "k * 10000 + 18 < 36 * n + 36" by linarith
  have "(of_nat (36 * n) :: rat) \<le> of_nat (k * 10000 + 18)"
    using lo by (simp only: of_nat_le_iff)
  then have lo': "(36 :: rat) * of_nat n \<le> of_nat k * 10000 + 18" by simp
  have "(of_nat (k * 10000 + 18) :: rat) < of_nat (36 * n + 36)"
    using hi by (simp only: of_nat_less_iff)
  then have hi': "(of_nat k :: rat) * 10000 + 18 < 36 * of_nat n + 36" by simp
  have close: "\<bar>36 * (of_nat n :: rat) - 10000 * of_nat k\<bar> \<le> 18"
    using lo' hi' by linarith
  have "(of_nat n :: rat) / 10000 - of_nat k / 36 = (36 * of_nat n - 10000 * of_nat k) / 360000"
    by (simp add: diff_divide_distrib)
  then have "\<bar>(of_nat n :: rat) / 10000 - of_nat k / 36\<bar>
      = \<bar>36 * of_nat n - 10000 * of_nat k\<bar> / 360000"
    by (simp only: abs_divide abs_numeral)
  also have "\<dots> \<le> 18 / 360000"
    using close by (intro divide_right_mono) simp_all
  finally have "\<bar>(of_nat n :: rat) / 10000 - of_nat k / 36\<bar> \<le> 1 / 20000"
    by simp
  then show ?thesis by (simp only: n_def)
qed

lemma upt_6: "[0..<6] = [0, 1, 2, 3, 4, 5]"
  by (simp add: upt_rec)

lemma pairs_won_examples:
  "pairs_won \<lparr>dice_values = [2, 2, 4, 4, 9, 9]\<rparr> \<lparr>dice_values = [6, 8, 1, 1, 8, 6]\<rparr> = 20"
  "pairs_won \<lparr>dice_values = [6, 8, 1, 1, 8, 6]\<rparr> \<lparr>dice_values = [7, 5, 3, 7, 5, 3]\<rparr> = 20"
  "pairs_won \<lparr>dice_values = [7, 5, 3, 7, 5, 3]\<rparr> \<lparr>dice_values = [2, 2, 4, 4, 9, 9]\<rparr> = 20"
  "pairs_won \<lparr>dice_values = [6, 8, 1, 1, 8, 6]\<rparr> \<lparr>dice_values = [2, 2, 4, 4, 9, 9]\<rparr> = 16"
  unfolding pairs_won_def card_pairs by (simp_all add: upt_6)

lemma toFixed_5556: "toFixed (5 / 9) 4 = ''0.5556''"
proof -
  have "toFixed (of_nat 20 / 36) 4 = fixed4 ((20 * 10000 + 18) div 36)"
    by (rule toFixed_36) simp
  then show ?thesis by (simp add: fixed4_def digit_char_def)
qed

lemma six_faces_example: "six_faces example_dice"
  by (simp add: six_faces_def example_dice_def)

text \<open>
  Claim C8: for dice of six faces and positions \<open>i \<noteq> j\<close>, the entry of the matrix is the
  string \<^verbatim>\<open>toFixed(4)\<close> of the number of the 36 ordered pairs of face positions with the
  face of dice \<open>i\<close> strictly greater than the face of dice \<open>j\<close>, divided by 36: one digit,
  the point and four digits, denoting a number within \<open>1 / 20000\<close> of the quotient. Pairs
  with equal faces are counted for neither dice: the two counts and the ties add up to 36.
  The quotient and its rounding are modelled exactly; the program computes them in binary
  floating point, which gives the same four decimals for each of the 37 possible counts.
\<close>

theorem calculateProbabilities_entry:
  assumes "six_faces ds" and "i < length ds" and "j < length ds" and "i \<noteq> j"
  shows "\<exists>P q. calculateProbabilities ds = Inr P
           \<and> P ! i ! j = Str (toFixed (of_nat (pairs_won (ds ! i) (ds ! j)) / 36) 4)
           \<and> toFixed (of_nat (pairs_won (ds ! i) (ds ! j)) / 36) 4
               = fixed4 ((pairs_won (ds ! i) (ds ! j) * 10000 + 18) div 36)
           \<and> string_to_number (toFixed (of_nat (pairs_won (ds ! i) (ds ! j)) / 36) 4) = Some q
           \<and> \<bar>q - of_nat (pairs_won (ds ! i) (ds ! j)) / 36\<bar> \<le> 1 / 20000
           \<and> pairs_won (ds ! i) (ds ! j) + pairs_won (ds ! j) (ds ! i)
               + pairs_tied (ds ! i) (ds ! j) = 36"
proof -
  let ?k = "pairs_won (ds ! i) (ds ! j)"
  let ?n = "(?k * 10000 + 18) div 36"
  obtain P where P: "calculateProbabilities ds = Inr P"
      "\<forall>i < length ds. \<forall>j < length ds. P ! i ! j = (if i = j then Num 0
           else Str (toFixed (of_nat (pairs_won (ds ! i) (ds ! j)) / 36) 4))"
    using calculateProbabilities_entries [OF assms(1)] by blast
  have k: "?k \<le> 36" by (rule pairs_won_le)
  have entry: "P ! i ! j = Str (toFixed (of_nat ?k / 36) 4)"
    using P(2) assms by simp
  have shape: "toFixed (of_nat ?k / 36) 4 = fixed4 ?n"
    using k by (rule toFixed_36)
  have "?n < 100000" using k by simp
  then have num: "string_to_number (toFixed (of_nat ?k / 36) 4) = Some (of_nat ?n / 10000)"
    unfolding shape by (rule string_to_number_fixed4)
  have close: "\<bar>(of_nat ?n :: rat) / 10000 - of_nat ?k / 36\<bar> \<le> 1 / 20000"
    by (rule round_36_close)
  show ?thesis
    using P(1) entry shape num close pairs_partition [of "ds ! i" "ds ! j"] by blast
qed

theorem calculateProbabilities_entry_witness:
  "six_faces example_dice
   \<and> (\<exists>P. calculateProbabilities example_dice = Inr P \<and> P ! 0 ! 1 = Str ''0.5556'')
   \<and> (\<exists>P. calculateProbabilities example_dice = Inr P \<and> P ! 1 ! 2 = Str ''0.5556'')
   \<and> (\<exists>P. calculateProbabilities example_dice = Inr P \<and> P ! 2 ! 0 = Str ''0.5556'')"
  using calculateProbabilities_entry [OF six_faces_example, of 0 1]
    calculateProbabilities_entry [OF six_faces_example, of 1 2]
    calculateProbabilities_entry [OF six_faces_example, of 2 0]
  by (simp add: six_faces_example) (auto simp: example_dice_def pairs_won_examples toFixed_5556)

subsection \<open>The choice of the computer\<close>

lemma rounded_bound: "k \<le> 36 \<Longrightarrow> rounded k < 100000"
  by (simp add: rounded_def)

lemma rounded_less: "(rounded a < rounded b) = (a < b)"
  unfolding rounded_def by (rule round_36_mono)

lemma entry_greater:
  assumes "a \<le> 36" "b \<le> 36"
  shows "js_greater (Str (toFixed (of_nat a / 36) 4)) (Str (toFixed (of_nat b / 36) 4)) = (b < a)"
proof -
  have "js_greater (Str (fixed4 (rounded a))) (Str (fixed4 (rounded b))) = (rounded b < rounded a)"
    using assms by (intro js_greater_fixed4 rounded_bound)
  then show ?thesis
    using assms by (simp only: toFixed_36 rounded_less rounded_def [symmetric])
qed

lemma entry_greater_initial:
  assumes "a \<le> 36"
  shows "js_greater (Str (toFixed (of_nat a / 36) 4)) (Num (- 1))"
proof -
  have "js_greater (Str (fixed4 (rounded a))) (Num (- 1))"
    using assms by (intro js_greater_fixed4_initial rounded_bound)
  then show ?thesis
    using assms by (simp only: toFixed_36 rounded_def [symmetric])
qed

lemma entry_truthy:
  assumes "a \<le> 36"
  shows "truthy (Str (toFixed (of_nat a / 36) 4))"
  using assms by (simp only: toFixed_36 fixed4_def truthy.simps) simp

lemma bestStep_invariant:
  assumes inv: "best_so_far c e m best"
    and c: "\<forall>i. c i \<le> 36"
    and row: "m \<noteq> e \<Longrightarrow> js_nth (P ! m) (int e) = Str (toFixed (of_nat (c m) / 36) 4)"
  shows "best_so_far c e (Suc m) (bestStep P (int e) m best)"
proof (cases "m = e")
  case True
  then have "bestStep P (int e) m best = best" by (simp add: bestStep_def)
  with inv True show ?thesis
    by (auto simp: best_so_far_def less_Suc_eq split: option.splits)
next
  case False
  let ?w = "Str (toFixed (of_nat (c m) / 36) 4)"
  have w: "js_or (js_nth (P ! m) (int e)) (Num 0) = ?w"
    using row [OF False] c entry_truthy [of "c m"] by (simp add: js_or_def)
  show ?thesis
  proof (cases "fst best")
    case None
    then have sb: "snd best = Num (- 1)" and all: "\<forall>i < m. i = e"
      using inv by (simp_all add: best_so_far_def)
    have "js_greater ?w (snd best)"
      unfolding sb using c by (intro entry_greater_initial) simp
    then have "bestStep P (int e) m best = (Some m, ?w)"
      using False w by (simp add: bestStep_def)
    then show ?thesis using False all by (auto simp: best_so_far_def less_Suc_eq)
  next
    case (Some b)
    then have b: "b < m" "b \<noteq> e" and sb: "snd best = Str (toFixed (of_nat (c b) / 36) 4)"
      and mx: "\<forall>i < m. i \<noteq> e \<longrightarrow> c i \<le> c b" and fst: "\<forall>i < b. i \<noteq> e \<longrightarrow> c i < c b"
      using inv by (simp_all add: best_so_far_def)
    have gt: "js_greater ?w (snd best) = (c b < c m)"
      unfolding sb using c by (intro entry_greater) simp_all
    show ?thesis
    proof (cases "c b < c m")
      case True
      then have "bestStep P (int e) m best = (Some m, ?w)"
        using False w gt by (simp add: bestStep_def)
      moreover have "\<forall>i < Suc m. i \<noteq> e \<longrightarrow> c i \<le> c m"
        using mx True by (auto simp: less_Suc_eq intro: order_trans less_imp_le)
      moreover have "\<forall>i < m. i \<noteq> e \<longrightarrow> c i < c m"
        using mx True by (auto intro: le_less_trans)
      ultimately show ?thesis using False by (simp add: best_so_far_def)
    next
      case nogt: False
      then have "bestStep P (int e) m best = best"
        using False w gt by (simp add: bestStep_def)
      moreover have "\<forall>i < Suc m. i \<noteq> e \<longrightarrow> c i \<le> c b"
        using mx nogt by (auto simp: less_Suc_eq)
      ultimately show ?thesis using Some b sb fst by (simp add: best_so_far_def)
    qed
  qed
qed

lemma best_fold:
  assumes c: "\<forall>i. c i \<le> 36"
    and rows: "\<forall>i < n. i \<noteq> e \<longrightarrow> js_nth (P ! i) (int e) = Str (toFixed (of_nat (c i) / 36) 4)"
    and m: "m \<le> n"
  shows "best_so_far c e m (fold (bestStep P (int e)) [0..<m] (None, Num (- 1)))"
  using m
proof (induction m)
  case 0
  then show ?case by (simp add: best_so_far_def)
next
  case (Suc m)
  then have "best_so_far c e m (fold (bestStep P (int e)) [0..<m] (None, Num (- 1)))" by simp
  then have "best_so_far c e (Suc m)
      (bestStep P (int e) m (fold (bestStep P (int e)) [0..<m] (None, Num (- 1))))"
    using c rows Suc.prems by (intro bestStep_invariant) simp_all
  then show ?case by simp
qed

lemma js_nth_in_range: "i < length xs \<Longrightarrow> js_nth xs (int i) = xs ! i"
  by (simp add: js_nth_def)

lemma bestStep_no_exclusion_fixed:
  "fold (bestStep P (- 1)) xs (Some b, Num 0) = (Some b, Num 0)"
  by (induction xs) (simp_all add: bestStep_def js_nth_def js_or_def)

text \<open>
  Claim C6: at difficulty Medium, with the dice of the opponent at position \<open>e\<close> and at
  least one other dice, \<^verbatim>\<open>selectComputerDice\<close> returns a remaining dice \<open>d\<close> whose entry
  \<open>P[d][e]\<close> no entry \<open>P[i][e]\<close> of a remaining dice exceeds, and every remaining dice
  before \<open>d\<close> has a strictly smaller entry: the first of the best dice is returned. The
  entries compare as the win counts do. No random value is drawn.
\<close>

theorem selectComputerDice_medium_best:
  assumes six: "six_faces (diceArray this)"
    and medium: "difficulty this = Str ''medium''"
    and e: "e < length (diceArray this)"
    and other: "\<exists>i < length (diceArray this). i \<noteq> e"
  shows "\<exists>d P. selectComputerDice env this (Some e) n = Inr (Some d, n)
           \<and> calculateProbabilities (diceArray this) = Inr P
           \<and> d < length (diceArray this) \<and> d \<noteq> e
           \<and> (\<forall>i < length (diceArray this). i \<noteq> e \<longrightarrow>
                 \<not> js_greater (P ! i ! e) (P ! d ! e)
                 \<and> pairs_won (diceArray this ! i) (diceArray this ! e)
                     \<le> pairs_won (diceArray this ! d) (diceArray this ! e))
           \<and> (\<forall>i < d. i \<noteq> e \<longrightarrow>
                 js_greater (P ! d ! e) (P ! i ! e)
                 \<and> pairs_won (diceArray this ! i) (diceArray this ! e)
                     < pairs_won (diceArray this ! d) (diceArray this ! e))"
proof -
  let ?ds = "diceArray this"
  let ?n = "length ?ds"
  let ?c = "\<lambda>i. pairs_won (?ds ! i) (?ds ! e)"
  obtain P where P: "calculateProbabilities ?ds = Inr P" "length P = ?n"
      "\<forall>r < ?n. length (P ! r) = ?n"
      "\<forall>i < ?n. \<forall>j < ?n. P ! i ! j = (if i = j then Num 0
           else Str (toFixed (of_nat (pairs_won (?ds ! i) (?ds ! j)) / 36) 4))"
    using calculateProbabilities_entries [OF six] by blast
  have entry: "P ! i ! e = Str (toFixed (of_nat (?c i) / 36) 4)" if "i < ?n" "i \<noteq> e" for i
    using P(4) that e by simp
  have c: "\<forall>i. ?c i \<le> 36" by (simp add: pairs_won_le)
  have rows: "\<forall>i < ?n. i \<noteq> e \<longrightarrow> js_nth (P ! i) (int e) = Str (toFixed (of_nat (?c i) / 36) 4)"
    using P(3) e entry by (simp add: js_nth_in_range)
  let ?best = "fold (bestStep P (int e)) [0..<?n] (None, Num (- 1))"
  have inv: "best_so_far ?c e ?n ?best"
    using c rows by (rule best_fold) simp
  obtain d where d: "fst ?best = Some d"
    using inv other by (cases "fst ?best") (auto simp: best_so_far_def)
  have props: "d < ?n" "d \<noteq> e" "\<forall>i < ?n. i \<noteq> e \<longrightarrow> ?c i \<le> ?c d" "\<forall>i < d. i \<noteq> e \<longrightarrow> ?c i < ?c d"
    using inv d by (simp_all add: best_so_far_def)
  have sel: "selectComputerDice env this (Some e) n = Inr (Some d, n)"
    using medium P(1) e d by (simp add: selectComputerDice_def indexOf_def Let_def)
  have le: "\<not> js_greater (P ! i ! e) (P ! d ! e)" if "i < ?n" "i \<noteq> e" for i
  proof -
    have "js_greater (P ! i ! e) (P ! d ! e) = (?c d < ?c i)"
      unfolding entry [OF that] entry [OF props(1,2)]
      by (rule entry_greater) (simp_all add: pairs_won_le)
    moreover have "?c i \<le> ?c d" using props(3) that by simp
    ultimately show ?thesis by simp
  qed
  have lt: "js_greater (P ! d ! e) (P ! i ! e)" if "i < d" "i \<noteq> e" for i
  proof -
    have i: "i < ?n" using that props(1) by simp
    have "js_greater (P ! d ! e) (P ! i ! e) = (?c i < ?c d)"
      unfolding entry [OF i that(2)] entry [OF props(1,2)]
      by (rule entry_greater) (simp_all add: pairs_won_le)
    moreover have "?c i < ?c d" using props(4) that by simp
    ultimately show ?thesis by simp
  qed
  show ?thesis
    using sel P(1) props le lt by blast
qed

theorem selectComputerDice_medium_best_witness:
  "selectComputerDice example_env \<lparr>diceArray = example_dice, difficulty = Str ''medium''\<rparr> (Some 0) 0
     = Inr (Some 2, 0)"
proof -
  let ?g = "\<lparr>diceArray = example_dice, difficulty = Str ''medium''\<rparr>"
  have h1: "six_faces (diceArray ?g)" by (simp add: six_faces_example)
  have h2: "difficulty ?g = Str ''medium''" by simp
  have len: "length (diceArray ?g) = 3" by (simp add: example_dice_def)
  have h3: "0 < length (diceArray ?g)" unfolding len by simp
  have h4: "\<exists>i < length (diceArray ?g). i \<noteq> 0" unfolding len by (rule exI [of _ 1]) simp
  obtain d where d: "selectComputerDice example_env ?g (Some 0) 0 = Inr (Some d, 0)"
      "d < length (diceArray ?g)" "d \<noteq> 0"
      "\<forall>i < length (diceArray ?g). i \<noteq> 0 \<longrightarrow>
          pairs_won (diceArray ?g ! i) (diceArray ?g ! 0)
            \<le> pairs_won (diceArray ?g ! d) (diceArray ?g ! 0)"
    using selectComputerDice_medium_best [OF h1 h2 h3 h4, of example_env 0] by blast
  have "d < 3" using d(2) unfolding len .
  then have "d = 1 \<or> d = 2" using d(3) by arith
  moreover have "d \<noteq> 1"
  proof
    assume "d = 1"
    with d(4) have "pairs_won (diceArray ?g ! 2) (diceArray ?g ! 0)
        \<le> pairs_won (diceArray ?g ! 1) (diceArray ?g ! 0)" unfolding len by simp
    then show False by (simp add: example_dice_def pairs_won_examples)
  qed
  ultimately show ?thesis using d(1) by auto
qed

text \<open>
  Claim C7: at difficulty Medium with no excluded dice, the claim has a uniform random
  choice among all dice. The loop reads \<^verbatim>\<open>probabilities[index][-1]\<close>, which is
  \<^verbatim>\<open>undefined\<close>, replaces it by 0 and finds \<open>0 > -1\<close> at the first dice: the first dice of
  the list is returned whatever the random source holds, and the random branch is never
  reached.
\<close>

theorem selectComputerDice_medium_first_mover:
  assumes six: "six_faces (diceArray this)"
    and medium: "difficulty this = Str ''medium''"
    and nonempty: "diceArray this \<noteq> []"
  shows "selectComputerDice env this None n = Inr (Some 0, n)"
proof -
  obtain P where P: "calculateProbabilities (diceArray this) = Inr P"
    using calculateProbabilities_entries [OF six] by blast
  have "[0..<length (diceArray this)] = 0 # [1..<length (diceArray this)]"
    using nonempty by (simp add: upt_conv_Cons)
  then have "fold (bestStep P (- 1)) [0..<length (diceArray this)] (None, Num (- 1))
      = fold (bestStep P (- 1)) [1..<length (diceArray this)] (Some 0, Num 0)"
    by (simp add: bestStep_def js_nth_def js_or_def)
  then have "fold (bestStep P (- 1)) [0..<length (diceArray this)] (None, Num (- 1)) = (Some 0, Num 0)"
    by (simp only: bestStep_no_exclusion_fixed)
  then show ?thesis
    using medium P by (simp add: selectComputerDice_def indexOf_def Let_def)
qed

theorem selectComputerDice_medium_first_mover_witness:
  "selectComputerDice example_env \<lparr>diceArray = example_dice, difficulty = Str ''medium''\<rparr> None 7
     = Inr (Some 0, 7)"
  using selectComputerDice_medium_first_mover
    [of "\<lparr>diceArray = example_dice, difficulty = Str ''medium''\<rparr>" example_env 7]
  by (simp add: six_faces_example) (simp add: example_dice_def)

subsection \<open>Who moves first\<close>

lemma playTurns_only_throw_events:
  "UserMoveFirstCalled \<notin> set (snd (playTurns e userDice computerDice n answers))"
proof (induction e userDice computerDice n answers rule: playTurns.induct)
  case (1 e userDice computerDice n)
  then show ?case by (simp add: generateRandomInteger_6)
next
  case (2 e userDice computerDice n userThrow1 answers1)
  then show ?case
    by (simp add: generateRandomInteger_6 split: sum.split list.split)
qed

lemma computerMoveFirst_events:
  "UserMoveFirstCalled \<notin> set (snd (computerMoveFirst e this n answers))"
  by (simp add: computerMoveFirst_def playTurns_only_throw_events
      split: sum.split option.split prod.split)

text \<open>
  Claim C2: a guess equal to the choice of the computer lets the human move first. The
  comparison of \<^verbatim>\<open>startGame\<close> reads \<^verbatim>\<open>this.computerChoice\<close>, which is \<^verbatim>\<open>undefined\<close>, so
  it is false for every guess: no run of \<^verbatim>\<open>startGame\<close> calls \<^verbatim>\<open>userMoveFirst\<close>, and the
  computer moves first also when the guess is right.
\<close>

theorem startGame_computer_always_first:
  "UserMoveFirstCalled \<notin> set (snd (startGame e this n answers))"
proof (induction e this n answers rule: startGame.induct)
  case (1 e this n)
  then show ?case by simp
next
  case (2 e this n difficultyAnswer)
  then show ?case by (simp split: sum.split)
next
  case (3 e this n difficultyAnswer userGuess answers)
  then show ?case
    by (auto simp: Let_def this_computerChoice_def computerMoveFirst_events
        generateRandomInteger_positive)
qed

theorem startGame_computer_always_first_witness:
  "startGame example_env \<lparr>diceArray = example_dice, difficulty = Undefined\<rparr> 0 [''1'', ''1'']
     = (Inr AwaitingInput,
        [HmacCalled ''4b1d'' ''1'' ''4b1d1'', KeyRevealed ''4b1d'' 1, ComputerMoveFirstCalled])
   \<and> UserMoveFirstCalled \<notin> set (snd (startGame example_env
         \<lparr>diceArray = example_dice, difficulty = Undefined\<rparr> 0 [''1'', ''1'']))"
  using startGame_computer_always_first
    [of example_env "\<lparr>diceArray = example_dice, difficulty = Undefined\<rparr>" 0 "[''1'', ''1'']"]
  by (simp add: generateRandomInteger_positive example_env_def generateKey_def calculateHMAC_def
      number_toString_def decimal_digit digit_char_def parse_decimal_def digit_value_def
      this_computerChoice_def computerMoveFirst_def selectComputerDice_def randomAvailable_def
      availableDice_def example_dice_def nth_ref_def after_def)

subsection \<open>The two selected dice\<close>

lemma playTurns_no_call_event:
  "PlayTurnsCalled u c \<notin> set (snd (playTurns e userDice computerDice n answers))"
proof (induction e userDice computerDice n answers rule: playTurns.induct)
  case (1 e userDice computerDice n)
  then show ?case by (simp add: generateRandomInteger_6)
next
  case (2 e userDice computerDice n userThrow1 answers1)
  then show ?case
    by (simp add: generateRandomInteger_6 split: sum.split list.split)
qed

lemma bestStep_not_excluded:
  "fst best \<noteq> Some u \<Longrightarrow> fst (fold (bestStep P (int u)) xs best) \<noteq> Some u"
  by (induction xs arbitrary: best) (simp_all add: bestStep_def Let_def)

lemma randomAvailable_not_excluded:
  "randomAvailable e this (Some u) n = Inr (Some c, n') \<Longrightarrow> c \<noteq> u"
proof -
  assume r: "randomAvailable e this (Some u) n = Inr (Some c, n')"
  then obtain k where k: "nth_ref (availableDice this (Some u)) k = Some c"
    by (auto simp: randomAvailable_def split: sum.splits)
  then have "c \<in> set (availableDice this (Some u))"
    by (auto simp: nth_ref_def split: if_splits)
  then show "c \<noteq> u" by (auto simp: availableDice_def)
qed

lemma selectComputerDice_not_excluded:
  assumes "selectComputerDice e this (Some u) n = Inr (Some c, n')" and "u < length (diceArray this)"
  shows "c \<noteq> u"
proof (cases "strict_equals (difficulty this) (Str ''medium'')")
  case False
  then show ?thesis using assms randomAvailable_not_excluded
    by (simp add: selectComputerDice_def)
next
  case True
  then obtain P where P: "calculateProbabilities (diceArray this) = Inr P"
    using assms by (auto simp: selectComputerDice_def split: sum.splits)
  let ?best = "fold (bestStep P (int u)) [0..<length (diceArray this)] (None, Num (- 1))"
  have nb: "fst ?best \<noteq> Some u" by (rule bestStep_not_excluded) simp
  show ?thesis
  proof (cases "fst ?best")
    case None
    then have "randomAvailable e this (Some u) n = Inr (Some c, n')"
      using assms True P by (simp add: selectComputerDice_def indexOf_def Let_def)
    then show ?thesis by (rule randomAvailable_not_excluded)
  next
    case (Some b)
    then have "c = b"
      using assms True P by (simp add: selectComputerDice_def indexOf_def Let_def)
    with nb Some show ?thesis by simp
  qed
qed

lemma selectDice_in_range:
  "selectDice this answers = Some (u, rest) \<Longrightarrow> u < length (diceArray this)"
  by (induction answers) (auto split: if_splits)

lemma userMoveFirst_distinct:
  assumes "PlayTurnsCalled u c \<in> set (snd (userMoveFirst e this n answers))"
  shows "u \<noteq> c"
proof -
  obtain u' rest where sel: "selectDice this answers = Some (u', rest)"
    using assms by (cases "selectDice this answers") (auto simp: userMoveFirst_def)
  obtain c' n' where comp: "selectComputerDice e this (Some u') n = Inr (Some c', n')"
    using assms sel
    by (cases "selectComputerDice e this (Some u') n")
       (auto simp: userMoveFirst_def split: option.splits)
  have "snd (userMoveFirst e this n answers) = PlayTurnsCalled u' c' #
      snd (playTurns e (diceArray this ! u') (diceArray this ! c') n' rest)"
    using sel comp by (simp add: userMoveFirst_def)
  with assms have "u = u'" "c = c'"
    by (simp_all add: playTurns_no_call_event)
  moreover have "c' \<noteq> u'"
    using comp selectDice_in_range [OF sel] by (rule selectComputerDice_not_excluded)
  ultimately show ?thesis by simp
qed

text \<open>
  Claim C4: the two selected dice are distinct, whoever moves first. When the computer
  moves first the human may select the dice of the computer: \<^verbatim>\<open>selectDice\<close> offers all
  dice, although its prompt says 'excluding computer's choice'. Here the computer takes
  the third dice and the human answers 3. When the human moves first the computer does
  exclude the dice of the human.
\<close>

theorem computer_first_same_dice:
  "PlayTurnsCalled 2 2 \<in> set (snd (startGame example_env
       \<lparr>diceArray = example_dice, difficulty = Undefined\<rparr> 0 [''1'', ''0'', ''3'']))
   \<and> (\<forall>u c. PlayTurnsCalled u c \<in> set (snd (userMoveFirst e this n answers)) \<longrightarrow> u \<noteq> c)"
proof -
  have "startGame example_env \<lparr>diceArray = example_dice, difficulty = Undefined\<rparr> 0
          [''1'', ''0'', ''3'']
      = (Inr AwaitingInput,
         [HmacCalled ''4b1d'' ''1'' ''4b1d1'', KeyRevealed ''4b1d'' 1, ComputerMoveFirstCalled,
          PlayTurnsCalled 2 2, HmacCalled ''4b1d'' ''4'' ''4b1d4''])"
    by (simp add: generateRandomInteger_positive example_env_def generateKey_def calculateHMAC_def
      number_toString_def decimal_digit digit_char_def parse_decimal_def digit_value_def
      this_computerChoice_def computerMoveFirst_def selectComputerDice_def randomAvailable_def
      availableDice_def example_dice_def nth_ref_def after_def positiveInteger_def is_digit_def
      upt_rec)
  then show ?thesis using userMoveFirst_distinct by auto
qed

theorem computer_first_same_dice_witness:
  "PlayTurnsCalled 0 1 \<in> set (snd (userMoveFirst example_env
       \<lparr>diceArray = example_dice, difficulty = Str ''easy''\<rparr> 0 [''1'']))
   \<and> PlayTurnsCalled 0 0 \<notin> set (snd (userMoveFirst example_env
       \<lparr>diceArray = example_dice, difficulty = Str ''easy''\<rparr> 0 [''1'']))"
proof -
  have "PlayTurnsCalled 0 1 \<in> set (snd (userMoveFirst example_env
       \<lparr>diceArray = example_dice, difficulty = Str ''easy''\<rparr> 0 [''1'']))"
    by (simp add: generateRandomInteger_positive example_env_def
      parse_decimal_def digit_value_def userMoveFirst_def
      selectComputerDice_def randomAvailable_def
      availableDice_def example_dice_def nth_ref_def positiveInteger_def is_digit_def
      upt_rec)
  then show ?thesis
    using computer_first_same_dice [of example_env
        "\<lparr>diceArray = example_dice, difficulty = Str ''easy''\<rparr>" 0 "[''1'']"]
    by blast
qed

end
